theory Spec2Isabelle
  imports Main "HOL-Library.Multiset"
begin

section \<open>savestate.py: the per-vocabulary user state\<close>

text \<open>
  Class \<open>VocState\<close> holds three attributes: \<open>_level\<close> (a Python int, unbounded),
  \<open>_is_qualified\<close> (a bool) and \<open>_extra_trans\<close>, a dict from the English word to a
  pair \<open>(addset, rmset)\<close> of sets of strings. Only membership in that dict matters to
  the program (no code depends on its iteration order apart from a sum), so it is a map.
\<close>

record VocState =
  level :: int
  is_qualified :: bool
  extra_trans :: "string \<rightharpoonup> (string set \<times> string set)"

text \<open>\<open>VocState.__init__\<close>: level 0, not qualified, no corrections.\<close>

definition VocState_init :: VocState where
  "VocState_init = \<lparr>level = 0, is_qualified = False, extra_trans = Map.empty\<rparr>"

text \<open>
  \<open>VocState.change_translation(engword, add, remove)\<close>. The pair for \<open>engword\<close> is
  fetched with \<open>setdefault\<close> (a pair of empty sets is stored when the word has no entry),
  and its two sets are then updated in place by the four augmented assignments, in the
  order of the source. The parameters \<open>add\<close> and \<open>remove\<close> are taken here by value; the
  object-level model further below shows that the parameter objects themselves are
  never written to.
\<close>

definition change_translation ::
  "VocState \<Rightarrow> string \<Rightarrow> string set \<Rightarrow> string set \<Rightarrow> VocState" where
  "change_translation self engword add remove =
     (let (addset, rmset) =
            (case extra_trans self engword of Some p \<Rightarrow> p | None \<Rightarrow> ({}, {}));
          addset = addset \<union> add;
          addset = addset - remove;
          rmset = rmset \<union> remove;
          rmset = rmset - add
      in self\<lparr>extra_trans := (extra_trans self)(engword \<mapsto> (addset, rmset))\<rparr>)"

text \<open>
  \<open>VocState.get_modified_translations(engword, translations)\<close>: a fresh set is built
  from the list of defaults, the additions are united into it and the removals are
  taken out of it. Neither the list nor the stored pair is written to; the state is
  therefore not returned.
\<close>

definition get_modified_translations ::
  "VocState \<Rightarrow> string \<Rightarrow> string list \<Rightarrow> string set" where
  "get_modified_translations self engword translations =
     (let (addset, rmset) =
            (case extra_trans self engword of Some p \<Rightarrow> p | None \<Rightarrow> ({}, {}));
          result = set translations;
          result = result \<union> addset;
          result = result - rmset
      in result)"

text \<open>\<open>VocState.reset_modifications(engword)\<close>: the entry is deleted when present.\<close>

definition reset_modifications :: "VocState \<Rightarrow> string \<Rightarrow> VocState" where
  "reset_modifications self engword =
     (if extra_trans self engword \<noteq> None
      then self\<lparr>extra_trans := (extra_trans self)(engword := None)\<rparr>
      else self)"

text \<open>
  The two components of a word's correction entry, read as the specification reads
  them: a word without an entry has no additions and no removals.
\<close>

definition additions :: "VocState \<Rightarrow> string \<Rightarrow> string set" where
  "additions self w = (case extra_trans self w of Some p \<Rightarrow> fst p | None \<Rightarrow> {})"

definition removals :: "VocState \<Rightarrow> string \<Rightarrow> string set" where
  "removals self w = (case extra_trans self w of Some p \<Rightarrow> snd p | None \<Rightarrow> {})"

text \<open>
  A history of the correction store: the calls that \<open>_modify_translation\<close> can make on
  it, run in order from a given state.
\<close>

datatype correction =
    ApplyCorrection string "string set" "string set"
  | ClearCorrections string

fun apply_correction :: "VocState \<Rightarrow> correction \<Rightarrow> VocState" where
  "apply_correction vs (ApplyCorrection w add remove) = change_translation vs w add remove"
| "apply_correction vs (ClearCorrections w) = reset_modifications vs w"

definition run_corrections :: "VocState \<Rightarrow> correction list \<Rightarrow> VocState" where
  "run_corrections vs cs = foldl apply_correction vs cs"

section \<open>session.py: dictionaries, slices and the word block\<close>

text \<open>
  A Python dict keeps its keys in insertion order, and storing under a key that is
  already present replaces the value in place. It is modelled as an association list
  with that store operation; \<open>dict(pairs)\<close> stores the pairs from left to right into
  an empty dict, so a later pair with the same key overwrites an earlier one.
\<close>

type_synonym ('k, 'v) pydict = "('k \<times> 'v) list"

fun dict_setitem :: "('k, 'v) pydict \<Rightarrow> 'k \<Rightarrow> 'v \<Rightarrow> ('k, 'v) pydict" where
  "dict_setitem [] k v = [(k, v)]"
| "dict_setitem (p # d) k v = (if fst p = k then (k, v) # d else p # dict_setitem d k v)"

definition dict :: "('k \<times> 'v) list \<Rightarrow> ('k, 'v) pydict" where
  "dict pairs = foldl (\<lambda>d p. dict_setitem d (fst p) (snd p)) [] pairs"

text \<open>\<open>d.keys()\<close>, in iteration order.\<close>

definition keys :: "('k, 'v) pydict \<Rightarrow> 'k list" where
  "keys d = map fst d"

text \<open>
  \<open>del d[k]\<close>. Python raises KeyError when the key is absent; both uses in the source
  follow a successful read of \<open>d[k]\<close> with no write to \<open>d\<close> in between, and the
  models below make that read first.
\<close>

definition dict_delitem :: "('k, 'v) pydict \<Rightarrow> 'k \<Rightarrow> ('k, 'v) pydict" where
  "dict_delitem d k = filter (\<lambda>p. fst p \<noteq> k) d"

text \<open>
  The slice \<open>xs[start:stop]\<close> of a list, for Python ints: a negative bound counts from
  the end, both bounds are clamped to the list, and an empty range gives the empty
  list. No slice raises.
\<close>

definition py_slice :: "'a list \<Rightarrow> int \<Rightarrow> int \<Rightarrow> 'a list" where
  "py_slice xs start stop =
     (let n = int (length xs);
          start = (if start < 0 then max (start + n) 0 else min start n);
          stop = (if stop < 0 then max (stop + n) 0 else min stop n)
      in take (nat (stop - start)) (drop (nat start) xs))"

text \<open>The module constants \<open>_NUMWORDS\<close> and \<open>_MAXLEVEL\<close>.\<close>

definition NUMWORDS :: int where "NUMWORDS = 10"
definition MAXLEVEL :: int where "MAXLEVEL = 10"

text \<open>
  \<open>_setup_test(vstate, voctable)\<close>: the dict built from the level's slice of the
  vocabulary table. Slicing and \<open>dict\<close> of a list of pairs with string keys cannot
  raise, so the function has no error result.
\<close>

type_synonym VocTable = "(string \<times> string list) list"

definition setup_test :: "VocState \<Rightarrow> VocTable \<Rightarrow> (string, string list) pydict" where
  "setup_test vstate voctable =
     (let startix = NUMWORDS * level vstate
      in dict (py_slice voctable startix (startix + NUMWORDS)))"

section \<open>session.py and menu.py: console input, menus, exam and drill\<close>

text \<open>
  The exceptions that the modelled code can raise: \<open>input()\<close> raises EOFError when the
  input has ended, a read of a missing dict key raises KeyError, and \<open>menu.choose\<close>
  asserts that its default is one of the options.
\<close>

datatype py_error = EOFError | KeyError | AssertionError

text \<open>
  \<open>str.lower()\<close> is Python's lower-casing of a Unicode string. What it does to a
  string is not a matter of this program, and the byte strings of the model do not
  determine it, so it is a parameter of the exam and of the drill: \<open>lower\<close>, the
  function that \<open>input().lower()\<close> applies to the line read. Everything proved of the
  exam and of the drill is proved for every such function.
\<close>

text \<open>\<open>str(n)\<close> for a non-negative int: its decimal digits.\<close>

fun str :: "nat \<Rightarrow> string" where
  "str n = (if n < 10 then [char_of (48 + n)] else str (n div 10) @ [char_of (48 + n mod 10)])"

declare str.simps [simp del]

text \<open>
  \<open>menu.choose(text, options, default)\<close>. An option is a tuple
  \<open>(input, description)\<close> or \<open>(input, value, description)\<close>; descriptions are only
  printed, so an option is modelled as its input string and its optional value. The
  console is the list of the lines still to be read: each \<open>input()\<close> takes the head,
  and raises EOFError on the empty list. The loop asks until a line is a key of
  \<open>input_dict\<close>; an empty line stands for the default when there is a non-empty one.
\<close>

type_synonym menu_option = "string \<times> string option"

fun choose_loop ::
  "(string, menu_option) pydict \<Rightarrow> string option \<Rightarrow> string list
     \<Rightarrow> py_error + (menu_option \<times> string list)" where
  "choose_loop input_dict dflt [] = Inl EOFError"
| "choose_loop input_dict dflt (line # rest) =
     (let inp = (case dflt of
                   Some d \<Rightarrow> if d \<noteq> [] \<and> line = [] then d else line
                 | None \<Rightarrow> line)
      in case map_of input_dict inp of
           Some r \<Rightarrow> Inr (r, rest)
         | None \<Rightarrow> choose_loop input_dict dflt rest)"

definition menu_choose ::
  "menu_option list \<Rightarrow> string option \<Rightarrow> string list
     \<Rightarrow> py_error + (menu_option \<times> string list)" where
  "menu_choose options dflt inputs =
     (let default_ok = (case dflt of
                          None \<Rightarrow> True
                        | Some d \<Rightarrow> d = [] \<or> d \<in> set (map fst options))
      in if \<not> default_ok then Inl AssertionError
         else (let input_dict = dict (map (\<lambda>tup. (fst tup, (fst tup, snd tup))) options)
               in choose_loop input_dict dflt inputs))"

text \<open>
  The outcome of a run of the exam or of the drill. The \<open>VocState\<close> object is updated
  in place, so its final value is part of the outcome also when an exception ends
  the run. \<open>ended\<close> is the branch in which the run finished (absent when an exception
  came first), \<open>raised\<close> the exception that left the function, \<open>prompted\<close> the words
  asked, in order.
\<close>

record 'v run =
  final_state :: VocState
  ended :: "'v option"
  raised :: "py_error option"
  prompted :: "string list"

subsection \<open>The exam\<close>

datatype exam_verdict = Passed | Failed

text \<open>
  The \<open>for\<close> loop of \<open>_take_exam\<close> over the shuffled words. It returns the dict of the
  words left, the words asked, the exception raised (if any) and the unread input. A
  wrong answer leaves the loop (\<open>break\<close>); a right one deletes the word from the dict.
\<close>

fun exam_loop ::
  "(string \<Rightarrow> string) \<Rightarrow> VocState \<Rightarrow> (string, string list) pydict \<Rightarrow> string list
     \<Rightarrow> string list \<Rightarrow> string list
     \<Rightarrow> (string, string list) pydict \<times> string list \<times> py_error option \<times> string list" where
  "exam_loop lower vstate vocdict [] inputs asked = (vocdict, asked, None, inputs)"
| "exam_loop lower vstate vocdict (engword # testwords) inputs asked =
     (case map_of vocdict engword of
        None \<Rightarrow> (vocdict, asked, Some KeyError, inputs)
      | Some defaults \<Rightarrow>
          (let translations = get_modified_translations vstate engword defaults
           in case inputs of
                [] \<Rightarrow> (vocdict, asked @ [engword], Some EOFError, [])
              | line # rest \<Rightarrow>
                  (let answer = lower line
                   in if answer \<in> translations
                      then exam_loop lower vstate (dict_delitem vocdict engword) testwords rest
                             (asked @ [engword])
                      else (vocdict, asked @ [engword], None, rest))))"

text \<open>
  \<open>_take_exam(vstate, voctable)\<close>. \<open>shuffle\<close> is the rearrangement that
  \<open>random.shuffle\<close> makes of the key list in this run. After the loop, an empty dict
  means the exam is passed: the level is incremented, the qualification is reset, and
  a last line is read ("Press return"); otherwise the exam is failed and nothing is
  written.
\<close>

definition take_exam ::
  "(string \<Rightarrow> string) \<Rightarrow> (string list \<Rightarrow> string list) \<Rightarrow> VocState \<Rightarrow> VocTable
     \<Rightarrow> string list
     \<Rightarrow> exam_verdict run" where
  "take_exam lower shuffle vstate voctable inputs =
     (let vocdict = setup_test vstate voctable;
          testwords = shuffle (keys vocdict)
      in case exam_loop lower vstate vocdict testwords inputs [] of
           (vocdict, asked, err, rest) \<Rightarrow>
             (case err of
                Some e \<Rightarrow>
                  \<lparr>final_state = vstate, ended = None, raised = Some e, prompted = asked\<rparr>
              | None \<Rightarrow>
                  if vocdict = [] then
                    (let vstate = vstate\<lparr>level := level vstate + 1\<rparr>;
                         vstate = vstate\<lparr>is_qualified := False\<rparr>
                     in case rest of
                          [] \<Rightarrow> \<lparr>final_state = vstate, ended = Some Passed,
                                 raised = Some EOFError, prompted = asked\<rparr>
                        | line # rest \<Rightarrow> \<lparr>final_state = vstate, ended = Some Passed,
                                 raised = None, prompted = asked\<rparr>)
                  else \<lparr>final_state = vstate, ended = Some Failed, raised = None,
                         prompted = asked\<rparr>))"

subsection \<open>The drill\<close>

text \<open>
  \<open>_modify_translation(engword, answer, translations, vstate)\<close>. The menu has the three
  fixed options and one numbered option per current translation, numbered from 1 in
  the order in which Python iterates over the set; that order is the parameter
  \<open>iter\<close>. Only a numbered option carries a value, so the last branch always finds
  one; should the value be absent, Python would put \<open>None\<close> into the removal set,
  which changes no set of strings.
\<close>

definition modify_translation ::
  "(string set \<Rightarrow> string list) \<Rightarrow> string \<Rightarrow> string \<Rightarrow> string set \<Rightarrow> VocState \<Rightarrow> string list
     \<Rightarrow> py_error option \<times> VocState \<times> string list" where
  "modify_translation iter engword answer translations vstate inputs =
     (let menuopts = [(''0'', None), (''a'', None), (''r'', None)]
                     @ map (\<lambda>(n, word). (str n, Some word)) (enumerate 1 (iter translations))
      in case menu_choose menuopts (Some ''0'') inputs of
           Inl e \<Rightarrow> (Some e, vstate, [])
         | Inr ((opt, replaceword), rest) \<Rightarrow>
             if opt = ''0'' then (None, vstate, rest)
             else if opt = ''a'' then
               (None, change_translation vstate engword {answer} {}, rest)
             else if opt = ''r'' then
               (None, reset_modifications vstate engword, rest)
             else
               (case replaceword of
                  Some word \<Rightarrow> (None, change_translation vstate engword {answer} {word}, rest)
                | None \<Rightarrow> (None, change_translation vstate engword {answer} {}, rest)))"

text \<open>
  The \<open>for\<close> loop of one round of \<open>_train\<close>. Every word of the round is asked, whether
  or not earlier answers were right; a wrong answer opens the correction menu.
\<close>

fun train_round ::
  "(string \<Rightarrow> string) \<Rightarrow> (string set \<Rightarrow> string list) \<Rightarrow> VocState
     \<Rightarrow> (string, string list) pydict \<Rightarrow> string list
     \<Rightarrow> string list \<Rightarrow> string list
     \<Rightarrow> py_error option \<times> VocState \<times> (string, string list) pydict \<times> string list \<times> string list"
  where
  "train_round lower iter vstate vocdict [] inputs asked = (None, vstate, vocdict, inputs, asked)"
| "train_round lower iter vstate vocdict (engword # testwords) inputs asked =
     (case map_of vocdict engword of
        None \<Rightarrow> (Some KeyError, vstate, vocdict, inputs, asked)
      | Some defaults \<Rightarrow>
          (let translations = get_modified_translations vstate engword defaults
           in case inputs of
                [] \<Rightarrow> (Some EOFError, vstate, vocdict, [], asked @ [engword])
              | line # rest \<Rightarrow>
                  (let answer = lower line
                   in if answer \<notin> translations
                      then (case modify_translation iter engword answer translations vstate rest of
                              (Some e, vstate, rest) \<Rightarrow>
                                (Some e, vstate, vocdict, rest, asked @ [engword])
                            | (None, vstate, rest) \<Rightarrow>
                                train_round lower iter vstate vocdict testwords rest
                                  (asked @ [engword]))
                      else train_round lower iter vstate (dict_delitem vocdict engword) testwords rest
                             (asked @ [engword]))))"

lemma choose_loop_shorter:
  "choose_loop input_dict dflt inputs = Inr (r, rest) \<Longrightarrow> length rest < length inputs"
proof (induction inputs)
  case Nil
  then show ?case by simp
next
  case (Cons line inputs)
  then show ?case
    by (fastforce simp: Let_def split: option.splits)
qed

lemma menu_choose_shorter:
  "menu_choose options dflt inputs = Inr (r, rest) \<Longrightarrow> length rest < length inputs"
  by (auto simp: menu_choose_def Let_def split: if_splits dest: choose_loop_shorter)

lemma modify_translation_shorter:
  "modify_translation iter engword answer translations vstate inputs = (err, vstate', rest)
     \<Longrightarrow> length rest \<le> length inputs"
  unfolding modify_translation_def Let_def
  by (auto split: sum.splits prod.splits if_splits option.splits
      dest!: menu_choose_shorter)

lemma train_round_shorter:
  "train_round lower iter vstate vocdict testwords inputs asked = (err, vstate', vocdict', rest, asked')
     \<Longrightarrow> length rest \<le> length inputs"
proof (induction testwords arbitrary: vstate vocdict inputs asked)
  case Nil
  then show ?case by simp
next
  case (Cons engword testwords)
  show ?case
  proof (cases "map_of vocdict engword")
    case None
    with Cons.prems show ?thesis by simp
  next
    case (Some defaults)
    show ?thesis
    proof (cases inputs)
      case Nil
      with Some Cons.prems show ?thesis by simp
    next
      case (Cons line more)
      let ?T = "get_modified_translations vstate engword defaults"
      show ?thesis
      proof (cases "lower line \<in> ?T")
        case True
        with Some Cons Cons.prems
        have "train_round lower iter vstate (dict_delitem vocdict engword) testwords more
                (asked @ [engword]) = (err, vstate', vocdict', rest, asked')"
          by simp
        from Cons.IH [OF this] Cons show ?thesis by simp
      next
        case False
        obtain e vs1 r1 where m:
          "modify_translation iter engword (lower line) ?T vstate more = (e, vs1, r1)"
          by (cases "modify_translation iter engword (lower line) ?T vstate more") auto
        from modify_translation_shorter [OF m] have le: "length r1 \<le> length more" .
        show ?thesis
        proof (cases e)
          case None
          with False Some Cons Cons.prems m
          have "train_round lower iter vs1 vocdict testwords r1 (asked @ [engword])
                  = (err, vstate', vocdict', rest, asked')"
            by simp
          from Cons.IH [OF this] le Cons show ?thesis by simp
        next
          case (Some x)
          with False \<open>map_of vocdict engword = Some defaults\<close> Cons Cons.prems m le
          show ?thesis by auto
        qed
      qed
    qed
  qed
qed

subsection \<open>The drill session\<close>

datatype drill_end = AllCorrect | Exited

text \<open>
  The \<open>while keepon\<close> loop of \<open>_train\<close>. \<open>shuffle n\<close> is the rearrangement that
  \<open>random.shuffle\<close> makes in round \<open>n\<close>. When the dict is empty after a round the
  session ends: \<open>qualified\<close> is set when it was not (the level is compared with
  \<open>_MAXLEVEL\<close> only to decide whether a message is printed). Otherwise the words left
  are listed and the user chooses between another round (c) and leaving (x). The loop
  is total: a further round is only reached after the menu has read a line.
\<close>

function train_loop ::
  "(string \<Rightarrow> string) \<Rightarrow> (nat \<Rightarrow> string list \<Rightarrow> string list)
     \<Rightarrow> (string set \<Rightarrow> string list) \<Rightarrow> VocState
     \<Rightarrow> (string, string list) pydict \<Rightarrow> string list \<Rightarrow> nat \<Rightarrow> string list
     \<Rightarrow> drill_end run" where
  "train_loop lower shuffle iter vstate vocdict inputs n asked =
     (let testwords = shuffle n (keys vocdict)
      in case train_round lower iter vstate vocdict testwords inputs asked of
           (err, vstate, vocdict, rest, asked) \<Rightarrow>
             (case err of
                Some e \<Rightarrow>
                  \<lparr>final_state = vstate, ended = None, raised = Some e, prompted = asked\<rparr>
              | None \<Rightarrow>
                  if vocdict = [] then
                    (let vstate = (if \<not> is_qualified vstate
                                   then vstate\<lparr>is_qualified := True\<rparr> else vstate)
                     in \<lparr>final_state = vstate, ended = Some AllCorrect, raised = None,
                          prompted = asked\<rparr>)
                  else
                    (case menu_choose [(''c'', None), (''x'', None)] None rest of
                       Inl e \<Rightarrow>
                         \<lparr>final_state = vstate, ended = None, raised = Some e,
                           prompted = asked\<rparr>
                     | Inr (choice, rest) \<Rightarrow>
                         if fst choice = ''x''
                         then \<lparr>final_state = vstate, ended = Some Exited, raised = None,
                                prompted = asked\<rparr>
                         else train_loop lower shuffle iter vstate vocdict rest (Suc n) asked)))"
  by pat_completeness auto
termination
proof (relation "measure (\<lambda>(lower, shuffle, iter, vstate, vocdict, inputs, n, asked). length inputs)")
  show "wf (measure (\<lambda>(lower, shuffle, iter, vstate, vocdict, inputs, n, asked). length inputs))"
    by simp
next
  fix lower :: "string \<Rightarrow> string"
    and shuffle :: "nat \<Rightarrow> string list \<Rightarrow> string list"
    and iter :: "string set \<Rightarrow> string list"
    and vstate :: VocState and vocdict :: "(string, string list) pydict"
    and inputs :: "string list" and n :: nat and asked :: "string list"
    and testwords x err y vstate' z vocdict' w rest asked' choice_rest choice rest'
  assume "testwords = shuffle n (keys vocdict)"
    and "(err, y) = train_round lower iter vstate vocdict testwords inputs asked"
    and "(vstate', z) = y" and "(vocdict', w) = z" and "(rest, asked') = w"
    and "menu_choose [(''c'', None), (''x'', None)] None rest = Inr choice_rest"
    and "(choice, rest') = choice_rest"
  then have r: "train_round lower iter vstate vocdict testwords inputs asked
                  = (err, vstate', vocdict', rest, asked')"
    and c: "menu_choose [(''c'', None), (''x'', None)] None rest = Inr (choice, rest')"
    by auto
  from train_round_shorter [OF r] menu_choose_shorter [OF c]
  show "((lower, shuffle, iter, vstate', vocdict', rest', Suc n, asked'),
         (lower, shuffle, iter, vstate, vocdict, inputs, n, asked))
        \<in> measure (\<lambda>(lower, shuffle, iter, vstate, vocdict, inputs, n, asked). length inputs)"
    by simp
qed

declare train_loop.simps [simp del]

text \<open>\<open>_train(vstate, voctable)\<close>: the loop, started on the level's block.\<close>

definition train ::
  "(string \<Rightarrow> string) \<Rightarrow> (nat \<Rightarrow> string list \<Rightarrow> string list)
     \<Rightarrow> (string set \<Rightarrow> string list) \<Rightarrow> VocState
     \<Rightarrow> VocTable \<Rightarrow> string list \<Rightarrow> drill_end run" where
  "train lower shuffle iter vstate voctable inputs =
     train_loop lower shuffle iter vstate (setup_test vstate voctable) inputs 0 []"

text \<open>
  Concrete choices for runs on explicit inputs. On a string of ASCII characters
  \<open>str.lower()\<close> maps the letters A to Z to a to z and keeps every other character;
  \<open>ascii_lower\<close> is that function, and it is applied below to ASCII strings only. The
  shuffle \<open>keep_order\<close> leaves every round in dict order, and \<open>iter_along\<close> iterates
  over a set in the order of a given list of candidates.
\<close>

definition ascii_lower_char :: "char \<Rightarrow> char" where
  "ascii_lower_char c =
     (let n = (of_char c :: nat) in if 65 \<le> n \<and> n \<le> 90 then char_of (n + 32) else c)"

definition ascii_lower :: "string \<Rightarrow> string" where
  "ascii_lower s = map ascii_lower_char s"

definition keep_order :: "nat \<Rightarrow> string list \<Rightarrow> string list" where
  "keep_order n ws = ws"

definition iter_along :: "string list \<Rightarrow> string set \<Rightarrow> string list" where
  "iter_along candidates S = filter (\<lambda>w. w \<in> S) (remdups candidates)"

text \<open>
  The effective translations of a word of the block, as the exam and the drill compute
  them at each question: the stored defaults of the word, corrected by the state.
\<close>

definition block_translations ::
  "VocState \<Rightarrow> (string, string list) pydict \<Rightarrow> string \<Rightarrow> string set" where
  "block_translations vstate vocdict engword =
     (case map_of vocdict engword of
        Some defaults \<Rightarrow> get_modified_translations vstate engword defaults
      | None \<Rightarrow> {})"

section \<open>savestate.py at the level of objects: who writes to which set\<close>

text \<open>
  \<open>change_translation\<close> updates set objects in place, and its parameters \<open>add\<close> and
  \<open>remove\<close> default to two set objects that are created once, when the function is
  defined, and shared by all calls. Whether a call can write to a parameter object
  depends on which objects are the same, so here a set is a reference into a heap of
  set values. References 0 and 1 are the two default objects; \<open>fresh\<close> is the next
  unused reference. \<open>_extra_trans\<close> is the dict from a word to the pair of references
  of its addition set and its removal set.
\<close>

type_synonym ref = nat

record objects =
  heap :: "ref \<Rightarrow> string set"
  fresh :: ref
  extra_refs :: "(string, ref \<times> ref) pydict"

definition default_add :: ref where
  "default_add = 0"

definition default_remove :: ref where
  "default_remove = 1"

text \<open>The objects after the class is defined and a \<open>VocState\<close> is created.\<close>

definition objects_init :: objects where
  "objects_init = \<lparr>heap = (\<lambda>r. {}), fresh = 2, extra_refs = []\<rparr>"

text \<open>A new set object with the given elements: \<open>set()\<close> or a set display.\<close>

definition new_set :: "string set \<Rightarrow> objects \<Rightarrow> ref \<times> objects" where
  "new_set S s = (fresh s, s\<lparr>heap := (heap s)(fresh s := S), fresh := Suc (fresh s)\<rparr>)"

text \<open>
  The augmented assignments \<open>x |= y\<close> and \<open>x -= y\<close> on set objects: the object \<open>x\<close> is
  written, the object \<open>y\<close> is read (they may be the same object).
\<close>

definition set_ior :: "objects \<Rightarrow> ref \<Rightarrow> ref \<Rightarrow> objects" where
  "set_ior s x y = s\<lparr>heap := (heap s)(x := heap s x \<union> heap s y)\<rparr>"

definition set_isub :: "objects \<Rightarrow> ref \<Rightarrow> ref \<Rightarrow> objects" where
  "set_isub s x y = s\<lparr>heap := (heap s)(x := heap s x - heap s y)\<rparr>"

text \<open>
  \<open>change_translation(engword, add, remove)\<close> on objects. The argument of
  \<open>setdefault\<close>, a tuple of two new empty sets, is built on every call and stored only
  when the word has no entry.
\<close>

definition change_translation_obj :: "objects \<Rightarrow> string \<Rightarrow> ref \<Rightarrow> ref \<Rightarrow> objects" where
  "change_translation_obj s engword add remove =
     (let (a0, s) = new_set {} s;
          (r0, s) = new_set {} s;
          (addset, rmset, s) =
            (case map_of (extra_refs s) engword of
               Some (a, r) \<Rightarrow> (a, r, s)
             | None \<Rightarrow>
                 (a0, r0, s\<lparr>extra_refs := dict_setitem (extra_refs s) engword (a0, r0)\<rparr>));
          s = set_ior s addset add;
          s = set_isub s addset remove;
          s = set_ior s rmset remove;
          s = set_isub s rmset add
      in s)"

definition reset_modifications_obj :: "objects \<Rightarrow> string \<Rightarrow> objects" where
  "reset_modifications_obj s engword =
     (if engword \<in> set (keys (extra_refs s))
      then s\<lparr>extra_refs := dict_delitem (extra_refs s) engword\<rparr>
      else s)"

text \<open>
  A call from outside the class. An argument that is given is a set object of the
  caller's (as the set displays in \<open>_modify_translation\<close>), here created for the call;
  an argument that is omitted is the shared default object.
\<close>

datatype call =
    Change string "string set option" "string set option"
  | Reset string

definition pass_arg :: "ref \<Rightarrow> string set option \<Rightarrow> objects \<Rightarrow> ref \<times> objects" where
  "pass_arg dflt arg s = (case arg of None \<Rightarrow> (dflt, s) | Some S \<Rightarrow> new_set S s)"

fun do_call :: "objects \<Rightarrow> call \<Rightarrow> objects" where
  "do_call s (Change w add remove) =
     (let (a, s) = pass_arg default_add add s;
          (r, s) = pass_arg default_remove remove s
      in change_translation_obj s w a r)"
| "do_call s (Reset w) = reset_modifications_obj s w"

definition run_calls :: "objects \<Rightarrow> call list \<Rightarrow> objects" where
  "run_calls s cs = foldl do_call s cs"

text \<open>The same call with a new empty set given for every omitted argument.\<close>

fun with_fresh_empty :: "call \<Rightarrow> call" where
  "with_fresh_empty (Change w add remove) =
     Change w (Some (case add of None \<Rightarrow> {} | Some S \<Rightarrow> S))
              (Some (case remove of None \<Rightarrow> {} | Some S \<Rightarrow> S))"
| "with_fresh_empty (Reset w) = Reset w"

text \<open>The call as the value-level model sees it.\<close>

fun correction_of :: "call \<Rightarrow> correction" where
  "correction_of (Change w add remove) =
     ApplyCorrection w (case add of None \<Rightarrow> {} | Some S \<Rightarrow> S)
                       (case remove of None \<Rightarrow> {} | Some S \<Rightarrow> S)"
| "correction_of (Reset w) = ClearCorrections w"

text \<open>The correction store that the objects represent.\<close>

definition abs_store :: "objects \<Rightarrow> (string \<rightharpoonup> (string set \<times> string set))" where
  "abs_store s w =
     (case map_of (extra_refs s) w of
        None \<Rightarrow> None
      | Some p \<Rightarrow> Some (heap s (fst p), heap s (snd p)))"

text \<open>
  The references held by the store, and the invariant of the objects: the store's
  sets are pairwise different objects, allocated, and none of them is a default
  object.
\<close>

definition refs_of :: "(string, ref \<times> ref) pydict \<Rightarrow> ref list" where
  "refs_of d = concat (map (\<lambda>p. [fst (snd p), snd (snd p)]) d)"

definition wf_objects :: "objects \<Rightarrow> bool" where
  "wf_objects s =
     (2 \<le> fresh s
      \<and> distinct (keys (extra_refs s))
      \<and> distinct (refs_of (extra_refs s))
      \<and> list_all (\<lambda>x. 2 \<le> x \<and> x < fresh s) (refs_of (extra_refs s)))"

section \<open>Correction store: lookup, merge, invariant\<close>

lemma additions_change_translation:
  "additions (change_translation vs w add remove) w' =
     (if w' = w then (additions vs w \<union> add) - remove else additions vs w')"
  by (auto simp: additions_def change_translation_def Let_def split: option.splits prod.splits)

lemma removals_change_translation:
  "removals (change_translation vs w add remove) w' =
     (if w' = w then (removals vs w \<union> remove) - add else removals vs w')"
  by (auto simp: removals_def change_translation_def Let_def split: option.splits prod.splits)

lemma additions_reset_modifications:
  "additions (reset_modifications vs w) w' = (if w' = w then {} else additions vs w')"
  by (auto simp: additions_def reset_modifications_def split: option.splits)

lemma removals_reset_modifications:
  "removals (reset_modifications vs w) w' = (if w' = w then {} else removals vs w')"
  by (auto simp: removals_def reset_modifications_def split: option.splits)

lemma disjoint_apply_correction:
  assumes "additions vs w \<inter> removals vs w = {}"
  shows "additions (apply_correction vs c) w \<inter> removals (apply_correction vs c) w = {}"
proof (cases c)
  case (ApplyCorrection w' add remove)
  then show ?thesis
    using assms
    by (auto simp: additions_change_translation removals_change_translation)
next
  case (ClearCorrections w')
  then show ?thesis
    using assms
    by (simp add: additions_reset_modifications removals_reset_modifications)
qed

lemma disjoint_run_corrections:
  "additions vs w \<inter> removals vs w = {} \<Longrightarrow>
   additions (run_corrections vs cs) w \<inter> removals (run_corrections vs cs) w = {}"
  unfolding run_corrections_def
proof (induction cs arbitrary: vs)
  case Nil
  then show ?case by simp
next
  case (Cons c cs)
  have "additions (apply_correction vs c) w \<inter> removals (apply_correction vs c) w = {}"
    using Cons.prems by (rule disjoint_apply_correction)
  then show ?case
    using Cons.IH by simp
qed

lemma disjoint_VocState_init: "additions VocState_init w \<inter> removals VocState_init w = {}"
  by (simp add: additions_def VocState_init_def)

lemma change_translation_entry:
  "change_translation vs w add remove =
     vs\<lparr>extra_trans := (extra_trans vs)
           (w \<mapsto> ((additions vs w \<union> add) - remove, (removals vs w \<union> remove) - add))\<rparr>"
  by (simp add: change_translation_def additions_def removals_def Let_def
      split: option.splits prod.splits)

text \<open>
  C1. For every word, every state of the correction store and every list of default
  translations, \<open>get_modified_translations\<close> returns exactly
  (set(defaults) \<union> additions(w)) - removals(w). The result never contains a removal;
  a word without an entry yields set(defaults); and in every store in which the
  additions and removals of the word are disjoint (which is every store that a history
  of corrections produces from the initial one) the result contains every addition.
\<close>

theorem get_modified_translations_formula:
  "get_modified_translations vs w defaults = (set defaults \<union> additions vs w) - removals vs w
   \<and> get_modified_translations vs w defaults \<inter> removals vs w = {}
   \<and> (extra_trans vs w = None \<longrightarrow> get_modified_translations vs w defaults = set defaults)
   \<and> (additions vs w \<inter> removals vs w = {} \<longrightarrow>
        additions vs w \<subseteq> get_modified_translations vs w defaults)
   \<and> additions (run_corrections VocState_init cs) w
        \<subseteq> get_modified_translations (run_corrections VocState_init cs) w defaults"
proof -
  have eq: "\<And>s. get_modified_translations s w defaults
              = (set defaults \<union> additions s w) - removals s w"
    by (simp add: get_modified_translations_def additions_def removals_def
        split: option.splits prod.splits)
  have none: "extra_trans vs w = None \<longrightarrow> get_modified_translations vs w defaults = set defaults"
    by (simp add: get_modified_translations_def)
  have sub: "\<And>s. additions s w \<inter> removals s w = {} \<Longrightarrow>
                 additions s w \<subseteq> get_modified_translations s w defaults"
    unfolding eq by blast
  have reach: "additions (run_corrections VocState_init cs) w
                 \<inter> removals (run_corrections VocState_init cs) w = {}"
    by (rule disjoint_run_corrections [OF disjoint_VocState_init])
  show ?thesis
    using eq [of vs] none sub [of vs] sub [OF reach] by blast
qed

theorem get_modified_translations_formula_witness:
  "(extra_trans VocState_init ''dog'' = None
    \<and> get_modified_translations VocState_init ''dog'' [''hund'', ''jycke''] = {''hund'', ''jycke''})
   \<and> (additions (change_translation VocState_init ''dog'' {''vovve''} {''jycke''}) ''dog''
         \<inter> removals (change_translation VocState_init ''dog'' {''vovve''} {''jycke''}) ''dog'' = {}
       \<and> get_modified_translations (change_translation VocState_init ''dog'' {''vovve''} {''jycke''})
            ''dog'' [''hund'', ''jycke''] = {''hund'', ''vovve''}
       \<and> additions (change_translation VocState_init ''dog'' {''vovve''} {''jycke''}) ''dog''
            \<subseteq> get_modified_translations
                 (change_translation VocState_init ''dog'' {''vovve''} {''jycke''})
                 ''dog'' [''hund'', ''jycke''])"
proof -
  define vs where "vs = change_translation VocState_init ''dog'' {''vovve''} {''jycke''}"
  have a: "extra_trans VocState_init ''dog'' = None"
    by (simp add: VocState_init_def)
  have add: "additions vs ''dog'' = {''vovve''}"
    by (auto simp: vs_def additions_def change_translation_def VocState_init_def)
  have rem: "removals vs ''dog'' = {''jycke''}"
    by (auto simp: vs_def removals_def change_translation_def VocState_init_def)
  have b: "additions vs ''dog'' \<inter> removals vs ''dog'' = {}"
    by (simp add: add rem)
  note t1 = get_modified_translations_formula [of VocState_init "''dog''" "[''hund'', ''jycke'']" "[]"]
  note t2 = get_modified_translations_formula [of vs "''dog''" "[''hund'', ''jycke'']" "[]"]
  from t1 a have "get_modified_translations VocState_init ''dog'' [''hund'', ''jycke'']
      = set [''hund'', ''jycke'']"
    by blast
  then have r1: "get_modified_translations VocState_init ''dog'' [''hund'', ''jycke'']
      = {''hund'', ''jycke''}"
    by simp
  from t2 have "get_modified_translations vs ''dog'' [''hund'', ''jycke'']
      = (set [''hund'', ''jycke''] \<union> additions vs ''dog'') - removals vs ''dog''"
    by blast
  then have r2: "get_modified_translations vs ''dog'' [''hund'', ''jycke''] = {''hund'', ''vovve''}"
    unfolding add rem by auto
  from t2 b have r3: "additions vs ''dog'' \<subseteq> get_modified_translations vs ''dog'' [''hund'', ''jycke'']"
    by blast
  show ?thesis
    using a r1 b r2 r3 unfolding vs_def by blast
qed

text \<open>
  C7. Along every history of \<open>change_translation\<close> and \<open>reset_modifications\<close> calls,
  from the initial state or from any state in which they are disjoint, the addition
  set and the removal set of a word stay disjoint. A call
  \<open>change_translation(w, add, remove)\<close> leaves for \<open>w\<close> the additions
  (old additions \<union> add) - remove and the removals (old removals \<union> remove) - add,
  and touches neither another word's entry nor level nor qualification.
\<close>

theorem change_translation_disjoint:
  "additions (run_corrections VocState_init cs) w
     \<inter> removals (run_corrections VocState_init cs) w = {}
   \<and> (additions vs w \<inter> removals vs w = {} \<longrightarrow>
        additions (run_corrections vs cs) w \<inter> removals (run_corrections vs cs) w = {})
   \<and> extra_trans (change_translation vs w add remove) w
        = Some ((additions vs w \<union> add) - remove, (removals vs w \<union> remove) - add)
   \<and> (w' \<noteq> w \<longrightarrow> extra_trans (change_translation vs w add remove) w' = extra_trans vs w')
   \<and> level (change_translation vs w add remove) = level vs
   \<and> is_qualified (change_translation vs w add remove) = is_qualified vs"
proof -
  have entry: "extra_trans (change_translation vs w add remove) w
        = Some ((additions vs w \<union> add) - remove, (removals vs w \<union> remove) - add)"
    by (simp add: change_translation_entry)
  have other: "w' \<noteq> w \<longrightarrow> extra_trans (change_translation vs w add remove) w' = extra_trans vs w'"
    by (simp add: change_translation_entry)
  have frame: "level (change_translation vs w add remove) = level vs"
    "is_qualified (change_translation vs w add remove) = is_qualified vs"
    by (simp_all add: change_translation_entry)
  show ?thesis
    using disjoint_run_corrections [OF disjoint_VocState_init, of cs w]
      disjoint_run_corrections [of vs w cs] entry other frame
    by blast
qed

theorem change_translation_disjoint_witness:
  "additions (change_translation VocState_init ''dog'' {''vovve''} {}) ''dog''
     \<inter> removals (change_translation VocState_init ''dog'' {''vovve''} {}) ''dog'' = {}
   \<and> additions (run_corrections (change_translation VocState_init ''dog'' {''vovve''} {})
         [ApplyCorrection ''dog'' {''hund''} {''vovve''}, ClearCorrections ''cat'']) ''dog''
     \<inter> removals (run_corrections (change_translation VocState_init ''dog'' {''vovve''} {})
         [ApplyCorrection ''dog'' {''hund''} {''vovve''}, ClearCorrections ''cat'']) ''dog'' = {}
   \<and> ''cat'' \<noteq> ''dog''
   \<and> extra_trans (change_translation VocState_init ''dog'' {''vovve''} {}) ''cat''
       = extra_trans VocState_init ''cat''"
proof -
  define vs where "vs = change_translation VocState_init ''dog'' {''vovve''} {}"
  have d: "additions vs ''dog'' \<inter> removals vs ''dog'' = {}"
    by (simp add: vs_def additions_def removals_def change_translation_def VocState_init_def)
  have ne: "''cat'' \<noteq> ''dog''"
    by simp
  from d change_translation_disjoint
         [of "[ApplyCorrection ''dog'' {''hund''} {''vovve''}, ClearCorrections ''cat'']"
             "''dog''" vs]
  have r: "additions (run_corrections vs
         [ApplyCorrection ''dog'' {''hund''} {''vovve''}, ClearCorrections ''cat'']) ''dog''
     \<inter> removals (run_corrections vs
         [ApplyCorrection ''dog'' {''hund''} {''vovve''}, ClearCorrections ''cat'']) ''dog'' = {}"
    by blast
  from ne change_translation_disjoint [of "[]" "''dog''" VocState_init "{''vovve''}" "{}" "''cat''"]
  have o: "extra_trans (change_translation VocState_init ''dog'' {''vovve''} {}) ''cat''
       = extra_trans VocState_init ''cat''"
    by blast
  show ?thesis
    using d r ne o unfolding vs_def by blast
qed

text \<open>
  C8. \<open>change_translation\<close> is idempotent: the same call made twice in succession
  leaves exactly the state that one call leaves.
\<close>

theorem change_translation_idempotent:
  "change_translation (change_translation vs w add remove) w add remove
     = change_translation vs w add remove"
proof -
  let ?vs' = "change_translation vs w add remove"
  have a: "additions ?vs' w = (additions vs w \<union> add) - remove"
    by (simp add: additions_change_translation)
  have r: "removals ?vs' w = (removals vs w \<union> remove) - add"
    by (simp add: removals_change_translation)
  have sa: "((additions vs w \<union> add) - remove \<union> add) - remove = (additions vs w \<union> add) - remove"
    by blast
  have sr: "((removals vs w \<union> remove) - add \<union> remove) - add = (removals vs w \<union> remove) - add"
    by blast
  have "change_translation ?vs' w add remove =
      ?vs'\<lparr>extra_trans := (extra_trans ?vs')
           (w \<mapsto> ((additions ?vs' w \<union> add) - remove, (removals ?vs' w \<union> remove) - add))\<rparr>"
    by (rule change_translation_entry)
  also have "\<dots> = ?vs'\<lparr>extra_trans := (extra_trans ?vs')
           (w \<mapsto> ((additions vs w \<union> add) - remove, (removals vs w \<union> remove) - add))\<rparr>"
    unfolding a r sa sr ..
  also have "\<dots> = ?vs'"
    by (simp add: change_translation_entry)
  finally show ?thesis .
qed

section \<open>Word-block selection\<close>

lemma map_of_dict_setitem: "map_of (dict_setitem d k v) = (map_of d)(k \<mapsto> v)"
  by (induction d) (auto simp: fun_eq_iff)

lemma keys_dict_setitem:
  "keys (dict_setitem d k v) = (if k \<in> set (keys d) then keys d else keys d @ [k])"
  unfolding keys_def by (induction d) auto

lemma dict_setitem_append:
  "k \<notin> set (keys d) \<Longrightarrow> dict_setitem d k v = d @ [(k, v)]"
  unfolding keys_def by (induction d) auto

lemma foldl_setitem_distinct:
  "distinct (keys d) \<Longrightarrow>
   distinct (keys (foldl (\<lambda>d p. dict_setitem d (fst p) (snd p)) d ps))"
  by (induction ps arbitrary: d) (simp_all add: keys_dict_setitem)

lemma foldl_setitem_keys:
  "set (keys (foldl (\<lambda>d p. dict_setitem d (fst p) (snd p)) d ps)) = set (keys d) \<union> fst ` set ps"
  by (induction ps arbitrary: d) (auto simp: keys_dict_setitem)

lemma foldl_setitem_map_of:
  "map_of (foldl (\<lambda>d p. dict_setitem d (fst p) (snd p)) d ps) = map_of d ++ map_of (rev ps)"
proof (induction ps arbitrary: d)
  case Nil
  show ?case by simp
next
  case (Cons p ps)
  have "map_of (foldl (\<lambda>d p. dict_setitem d (fst p) (snd p)) d (p # ps))
          = (map_of d)(fst p \<mapsto> snd p) ++ map_of (rev ps)"
    using Cons.IH [of "dict_setitem d (fst p) (snd p)"] by (simp only: foldl_Cons map_of_dict_setitem)
  also have "\<dots> = map_of d ++ ([fst p \<mapsto> snd p] ++ map_of (rev ps))"
    by (auto simp: fun_eq_iff map_add_def split: option.splits)
  also have "[fst p \<mapsto> snd p] ++ map_of (rev ps) = map_of (rev (p # ps))"
    by simp
  finally show ?case .
qed

lemma foldl_setitem_fresh:
  "distinct (keys d @ map fst ps) \<Longrightarrow>
   foldl (\<lambda>d p. dict_setitem d (fst p) (snd p)) d ps = d @ ps"
proof (induction ps arbitrary: d)
  case Nil
  show ?case by simp
next
  case (Cons p ps)
  from Cons.prems have fresh: "fst p \<notin> set (keys d)"
    by auto
  from Cons.prems have "distinct (keys (d @ [p]) @ map fst ps)"
    by (auto simp: keys_def)
  with Cons.IH [of "d @ [p]"] fresh show ?case
    by (simp add: dict_setitem_append)
qed

lemma distinct_keys_dict: "distinct (keys (dict ps))"
  unfolding dict_def by (rule foldl_setitem_distinct) (simp add: keys_def)

lemma set_keys_dict: "set (keys (dict ps)) = fst ` set ps"
  unfolding dict_def using foldl_setitem_keys [of "[]" ps] by (simp add: keys_def)

lemma map_of_dict: "map_of (dict ps) = map_of (rev ps)"
  unfolding dict_def by (simp add: foldl_setitem_map_of)

lemma dict_distinct: "distinct (map fst ps) \<Longrightarrow> dict ps = ps"
  unfolding dict_def using foldl_setitem_fresh [of "[]" ps] by (simp add: keys_def)

lemma length_dict: "length (dict ps) = card (fst ` set ps)"
proof -
  have "length (dict ps) = length (keys (dict ps))"
    by (simp add: keys_def)
  also have "\<dots> = card (set (keys (dict ps)))"
    by (simp add: distinct_card distinct_keys_dict)
  finally show ?thesis
    by (simp add: set_keys_dict)
qed

lemma map_of_rev_last:
  "w \<in> fst ` set ps \<Longrightarrow> map_of (rev ps) w = Some (snd (last (filter (\<lambda>p. fst p = w) ps)))"
  by (induction ps rule: rev_induct) auto

lemma count_list_distinct: "distinct xs \<Longrightarrow> x \<in> set xs \<Longrightarrow> count_list xs x = 1"
  by (induction xs) (auto simp: count_notin)

lemma py_slice_nonneg:
  assumes "0 \<le> start" "start \<le> stop"
  shows "py_slice xs start stop = take (nat (stop - start)) (drop (nat start) xs)"
proof (cases "start \<le> int (length xs)")
  case True
  have "take (nat (min stop (int (length xs)) - start)) (drop (nat start) xs)
          = take (nat (stop - start)) (drop (nat start) xs)"
  proof (cases "stop \<le> int (length xs)")
    case True
    then show ?thesis by (simp add: min_def)
  next
    case False
    with \<open>start \<le> int (length xs)\<close> assms show ?thesis
      by (simp add: min_def)
  qed
  with True assms show ?thesis
    by (simp add: py_slice_def Let_def min_def)
next
  case False
  with assms show ?thesis
    by (simp add: py_slice_def Let_def min_def)
qed

lemma setup_test_slice:
  assumes "0 \<le> level vs"
  shows "setup_test vs voctable = dict (take 10 (drop (10 * nat (level vs)) voctable))"
proof -
  have "nat (10 * level vs) = 10 * nat (level vs)"
    using assms by (simp add: nat_mult_distrib)
  then show ?thesis
    using assms by (simp add: setup_test_def NUMWORDS_def Let_def py_slice_nonneg)
qed

text \<open>
  C6 (amended). For a level L \<ge> 0, \<open>_setup_test\<close> returns the dict built from the
  entries at indices [10 L, 10 L + 10) of the table, a shorter (possibly empty) suffix
  when the table is exhausted; when the English words of that slice are pairwise
  distinct the block is exactly those entries in their order. The function is total:
  it has no error result.
\<close>

theorem setup_test_block:
  assumes "0 \<le> level vs"
  shows "(distinct (map fst (take 10 (drop (10 * nat (level vs)) voctable))) \<longrightarrow>
            setup_test vs voctable = take 10 (drop (10 * nat (level vs)) voctable))
         \<and> map_of (setup_test vs voctable)
              = map_of (rev (take 10 (drop (10 * nat (level vs)) voctable)))
         \<and> set (keys (setup_test vs voctable))
              = fst ` set (take 10 (drop (10 * nat (level vs)) voctable))
         \<and> length (take 10 (drop (10 * nat (level vs)) voctable))
              = min 10 (length voctable - 10 * nat (level vs))
         \<and> (\<forall>i < length (take 10 (drop (10 * nat (level vs)) voctable)).
               take 10 (drop (10 * nat (level vs)) voctable) ! i
                 = voctable ! (10 * nat (level vs) + i))"
proof -
  let ?slice = "take 10 (drop (10 * nat (level vs)) voctable)"
  have eq: "setup_test vs voctable = dict ?slice"
    using assms by (rule setup_test_slice)
  have "distinct (map fst ?slice) \<longrightarrow> setup_test vs voctable = ?slice"
    unfolding eq by (simp add: dict_distinct)
  moreover have "map_of (setup_test vs voctable) = map_of (rev ?slice)"
    unfolding eq by (rule map_of_dict)
  moreover have "set (keys (setup_test vs voctable)) = fst ` set ?slice"
    unfolding eq by (rule set_keys_dict)
  moreover have "length ?slice = min 10 (length voctable - 10 * nat (level vs))"
    by simp
  moreover have "\<forall>i < length ?slice. ?slice ! i = voctable ! (10 * nat (level vs) + i)"
    by (auto intro!: nth_drop)
  ultimately show ?thesis
    by blast
qed

theorem setup_test_block_witness:
  "0 \<le> level VocState_init
   \<and> distinct (map fst (take 10 (drop (10 * nat (level VocState_init))
         [(''dog'', [''hund'']), (''cat'', [''katt''])])))
   \<and> setup_test VocState_init [(''dog'', [''hund'']), (''cat'', [''katt''])]
       = [(''dog'', [''hund'']), (''cat'', [''katt''])]"
proof -
  have l: "0 \<le> level VocState_init"
    by (simp add: VocState_init_def)
  have d: "distinct (map fst (take 10 (drop (10 * nat (level VocState_init))
         [(''dog'', [''hund'']), (''cat'', [''katt''])])))"
    by (simp add: VocState_init_def)
  from setup_test_block [OF l, of "[(''dog'', [''hund'']), (''cat'', [''katt''])]"] d
  have "setup_test VocState_init [(''dog'', [''hund'']), (''cat'', [''katt''])]
       = take 10 (drop (10 * nat (level VocState_init)) [(''dog'', [''hund'']), (''cat'', [''katt''])])"
    by blast
  then have "setup_test VocState_init [(''dog'', [''hund'']), (''cat'', [''katt''])]
       = [(''dog'', [''hund'']), (''cat'', [''katt''])]"
    by (simp add: VocState_init_def)
  with l d show ?thesis
    by blast
qed

text \<open>
  The claim as stated fails when an English word is repeated within the slice: the
  block is then not the list of the slice's entries.
\<close>

theorem setup_test_block_counterexample:
  "level VocState_init = 0
   \<and> setup_test VocState_init [(''dog'', [''hund'']), (''dog'', [''jycke''])]
       = [(''dog'', [''jycke''])]
   \<and> setup_test VocState_init [(''dog'', [''hund'']), (''dog'', [''jycke''])]
       \<noteq> take 10 (drop (10 * 0) [(''dog'', [''hund'']), (''dog'', [''jycke''])])"
  by (simp add: setup_test_def VocState_init_def NUMWORDS_def py_slice_def dict_def)

text \<open>
  C10. When an English word occurs more than once within the level's slice, the block
  holds that word exactly once, with the default translations of its last occurrence
  in the slice, and the block has fewer entries than the slice.
\<close>

theorem setup_test_duplicate_word:
  assumes "1 < count_list (map fst (py_slice voctable (NUMWORDS * level vs)
                                       (NUMWORDS * level vs + NUMWORDS))) w"
  shows "count_list (keys (setup_test vs voctable)) w = 1
         \<and> map_of (setup_test vs voctable) w
              = Some (snd (last (filter (\<lambda>p. fst p = w)
                  (py_slice voctable (NUMWORDS * level vs) (NUMWORDS * level vs + NUMWORDS)))))
         \<and> length (setup_test vs voctable)
              < length (py_slice voctable (NUMWORDS * level vs) (NUMWORDS * level vs + NUMWORDS))"
proof -
  let ?slice = "py_slice voctable (NUMWORDS * level vs) (NUMWORDS * level vs + NUMWORDS)"
  have eq: "setup_test vs voctable = dict ?slice"
    by (simp add: setup_test_def Let_def)
  from assms have mem: "w \<in> fst ` set ?slice"
    using count_list_0_iff [of "map fst ?slice" w] by auto
  from assms have nd: "\<not> distinct (map fst ?slice)"
    using count_list_distinct [of "map fst ?slice" w] mem by auto
  have once: "count_list (keys (setup_test vs voctable)) w = 1"
    unfolding eq using mem
    by (intro count_list_distinct distinct_keys_dict) (simp add: set_keys_dict)
  have lookup: "map_of (setup_test vs voctable) w
      = Some (snd (last (filter (\<lambda>p. fst p = w) ?slice)))"
    unfolding eq map_of_dict using mem by (rule map_of_rev_last)
  have "card (set (map fst ?slice)) \<noteq> length (map fst ?slice)"
    using nd card_distinct by blast
  then have "card (set (map fst ?slice)) < length (map fst ?slice)"
    using card_length [of "map fst ?slice"] by linarith
  then have fewer: "length (setup_test vs voctable) < length ?slice"
    unfolding eq by (simp add: length_dict)
  from once lookup fewer show ?thesis
    by blast
qed

theorem setup_test_duplicate_word_witness:
  "1 < count_list (map fst (py_slice
         [(''dog'', [''hund'']), (''cat'', [''katt'']), (''dog'', [''jycke''])]
         (NUMWORDS * level VocState_init) (NUMWORDS * level VocState_init + NUMWORDS))) ''dog''
   \<and> setup_test VocState_init
         [(''dog'', [''hund'']), (''cat'', [''katt'']), (''dog'', [''jycke''])]
       = [(''dog'', [''jycke'']), (''cat'', [''katt''])]
   \<and> map_of (setup_test VocState_init
         [(''dog'', [''hund'']), (''cat'', [''katt'']), (''dog'', [''jycke''])]) ''dog''
       = Some [''jycke'']"
proof -
  let ?t = "[(''dog'', [''hund'']), (''cat'', [''katt'']), (''dog'', [''jycke''])]"
  have sl: "py_slice ?t (NUMWORDS * level VocState_init)
              (NUMWORDS * level VocState_init + NUMWORDS) = ?t"
    by (simp add: py_slice_def NUMWORDS_def VocState_init_def)
  have h: "1 < count_list (map fst (py_slice ?t (NUMWORDS * level VocState_init)
              (NUMWORDS * level VocState_init + NUMWORDS))) ''dog''"
    unfolding sl by simp
  have v: "setup_test VocState_init ?t = [(''dog'', [''jycke'']), (''cat'', [''katt''])]"
    by (simp add: setup_test_def VocState_init_def NUMWORDS_def py_slice_def dict_def)
  from setup_test_duplicate_word [OF h]
  have "map_of (setup_test VocState_init ?t) ''dog''
      = Some (snd (last (filter (\<lambda>p. fst p = ''dog'')
           (py_slice ?t (NUMWORDS * level VocState_init)
              (NUMWORDS * level VocState_init + NUMWORDS)))))"
    by blast
  then have "map_of (setup_test VocState_init ?t) ''dog'' = Some [''jycke'']"
    unfolding sl by simp
  with h v show ?thesis
    by blast
qed

section \<open>The exam engine\<close>

lemma map_of_dict_delitem: "map_of (dict_delitem d k) = (map_of d)(k := None)"
  unfolding dict_delitem_def by (induction d) (auto simp: fun_eq_iff)

lemma keys_dict_delitem: "set (keys (dict_delitem d k)) = set (keys d) - {k}"
  unfolding dict_delitem_def keys_def by auto

lemma in_keys_map_of: "w \<in> set (keys d) \<Longrightarrow> \<exists>v. map_of d w = Some v"
  unfolding keys_def by (metis map_of_eq_None_iff not_None_eq set_map)

lemma block_translations_delitem:
  "w' \<noteq> w \<Longrightarrow> block_translations vs (dict_delitem d w) w' = block_translations vs d w'"
  by (simp add: block_translations_def map_of_dict_delitem)

lemma exam_loop_mismatch:
  assumes "distinct ws" "set ws \<subseteq> set (keys vd)" "k < length ws" "k < length inputs"
    and "\<forall>i<k. lower (inputs ! i) \<in> block_translations vs vd (ws ! i)"
    and "lower (inputs ! k) \<notin> block_translations vs vd (ws ! k)"
  shows "\<exists>vd'. exam_loop lower vs vd ws inputs asked
                 = (vd', asked @ take (Suc k) ws, None, drop (Suc k) inputs) \<and> vd' \<noteq> []"
  using assms
proof (induction ws arbitrary: vd k inputs asked)
  case Nil
  then show ?case by simp
next
  case (Cons w ws)
  from Cons.prems(2) obtain d where d: "map_of vd w = Some d"
    using in_keys_map_of [of w vd] by auto
  from Cons.prems(4) obtain a rest where inp: "inputs = a # rest"
    by (cases inputs) auto
  have bt: "block_translations vs vd w = get_modified_translations vs w d"
    by (simp add: block_translations_def d)
  show ?case
  proof (cases k)
    case 0
    with Cons.prems(6) inp bt have "lower a \<notin> get_modified_translations vs w d"
      by simp
    moreover from Cons.prems(2) have "vd \<noteq> []"
      by (auto simp: keys_def)
    ultimately show ?thesis
      using 0 d inp by simp
  next
    case (Suc k')
    from Cons.prems(5) Suc inp bt have ok: "lower a \<in> get_modified_translations vs w d"
      by auto
    have 1: "distinct ws" and nin: "w \<notin> set ws"
      using Cons.prems(1) by auto
    have 2: "set ws \<subseteq> set (keys (dict_delitem vd w))"
      using Cons.prems(2) nin by (auto simp: keys_dict_delitem)
    have 3: "k' < length ws" "k' < length rest"
      using Cons.prems(3,4) Suc inp by auto
    have same: "block_translations vs (dict_delitem vd w) (ws ! i) = block_translations vs vd (ws ! i)"
      if "i < length ws" for i
      using that nin by (intro block_translations_delitem) (metis nth_mem)
    have 5: "\<forall>i<k'. lower (rest ! i) \<in> block_translations vs (dict_delitem vd w) (ws ! i)"
    proof (intro allI impI)
      fix i assume "i < k'"
      with Cons.prems(5) Suc inp have "lower (rest ! i) \<in> block_translations vs vd (ws ! i)"
        by (metis Suc_less_eq nth_Cons_Suc)
      with same [of i] \<open>i < k'\<close> 3(1) show "lower (rest ! i) \<in> block_translations vs (dict_delitem vd w) (ws ! i)"
        by simp
    qed
    have 6: "lower (rest ! k') \<notin> block_translations vs (dict_delitem vd w) (ws ! k')"
      using Cons.prems(6) Suc inp same [OF 3(1)] by simp
    from Cons.IH [OF 1 2 3 5 6, of "asked @ [w]"] obtain vd' where
      "exam_loop lower vs (dict_delitem vd w) ws rest (asked @ [w])
         = (vd', (asked @ [w]) @ take (Suc k') ws, None, drop (Suc k') rest)" "vd' \<noteq> []"
      by blast
    then show ?thesis
      using Suc d inp ok by simp
  qed
qed


lemma distinct_keys_setup_test: "distinct (keys (setup_test vs voctable))"
  by (simp add: setup_test_def Let_def distinct_keys_dict)

lemma shuffled_keys:
  assumes "mset tw = mset (keys (setup_test vs voctable))"
  shows "distinct tw" "set tw = set (keys (setup_test vs voctable))"
  using assms distinct_keys_setup_test [of vs voctable]
  by (metis mset_eq_imp_distinct_iff, metis mset_eq_setD)

text \<open>
  C2. In an exam over the level's block, let the shuffled order be any rearrangement of
  the block's words. If the answers at the positions before k are right and the answer
  at position k (k < N) is wrong, the exam fails there: exactly the words at positions
  0..k have been asked, nothing is raised, and the state (level, qualification,
  corrections) is the state before the attempt.
\<close>

theorem take_exam_first_mismatch:
  assumes "mset (shuffle (keys (setup_test vs voctable))) = mset (keys (setup_test vs voctable))"
    and "k < length (shuffle (keys (setup_test vs voctable)))"
    and "k < length inputs"
    and "\<forall>i<k. lower (inputs ! i)
            \<in> block_translations vs (setup_test vs voctable)
                (shuffle (keys (setup_test vs voctable)) ! i)"
    and "lower (inputs ! k)
            \<notin> block_translations vs (setup_test vs voctable)
                (shuffle (keys (setup_test vs voctable)) ! k)"
  shows "take_exam lower shuffle vs voctable inputs
           = \<lparr>final_state = vs, ended = Some Failed, raised = None,
              prompted = take (Suc k) (shuffle (keys (setup_test vs voctable)))\<rparr>"
proof -
  let ?vd = "setup_test vs voctable"
  let ?tw = "shuffle (keys ?vd)"
  have d: "distinct ?tw" and s: "set ?tw \<subseteq> set (keys ?vd)"
    using shuffled_keys [OF assms(1)] by auto
  from exam_loop_mismatch [OF d s assms(2,3,4,5), of "[]"] obtain vd' where
    "exam_loop lower vs ?vd ?tw inputs [] = (vd', take (Suc k) ?tw, None, drop (Suc k) inputs)"
    "vd' \<noteq> []"
    by auto
  then show ?thesis
    by (simp add: take_exam_def Let_def)
qed

theorem take_exam_first_mismatch_witness:
  "take_exam ascii_lower rev VocState_init
     [(''dog'', [''hund'']), (''cat'', [''katt'']), (''cow'', [''ko''])] [''Ko'', ''kat'', ''hund'']
   = \<lparr>final_state = VocState_init, ended = Some Failed, raised = None,
      prompted = [''cow'', ''cat'']\<rparr>"
proof -
  let ?t = "[(''dog'', [''hund'']), (''cat'', [''katt'']), (''cow'', [''ko''])]"
  have b: "setup_test VocState_init ?t = ?t"
    by (simp add: setup_test_def VocState_init_def NUMWORDS_def py_slice_def dict_def)
  have k: "keys ?t = [''dog'', ''cat'', ''cow'']"
    by (simp add: keys_def)
  have lo: "ascii_lower ''Ko'' = ''ko''" "ascii_lower ''kat'' = ''kat''"
    by code_simp+
  have 1: "mset (rev (keys (setup_test VocState_init ?t))) = mset (keys (setup_test VocState_init ?t))"
    by simp
  have 2: "1 < length (rev (keys (setup_test VocState_init ?t)))"
    unfolding b k by simp
  have 3: "1 < length [''Ko'', ''kat'', ''hund'']"
    by simp
  have 4: "\<forall>i<1. ascii_lower ([''Ko'', ''kat'', ''hund''] ! i)
            \<in> block_translations VocState_init (setup_test VocState_init ?t)
                (rev (keys (setup_test VocState_init ?t)) ! i)"
    unfolding b k
    by (simp add: block_translations_def get_modified_translations_def VocState_init_def lo)
  have 5: "ascii_lower ([''Ko'', ''kat'', ''hund''] ! 1)
            \<notin> block_translations VocState_init (setup_test VocState_init ?t)
                (rev (keys (setup_test VocState_init ?t)) ! 1)"
    unfolding b k
    by (simp add: block_translations_def get_modified_translations_def VocState_init_def lo)
  from take_exam_first_mismatch [of rev VocState_init ?t 1, OF 1 2 3 4 5]
  show ?thesis
    unfolding b k by simp
qed



section \<open>The drill engine\<close>

lemma reset_modifications_frame:
  "level (reset_modifications vs w) = level vs"
  "is_qualified (reset_modifications vs w) = is_qualified vs"
  by (simp_all add: reset_modifications_def)

lemma change_translation_frame:
  "level (change_translation vs w add remove) = level vs"
  "is_qualified (change_translation vs w add remove) = is_qualified vs"
  by (simp_all add: change_translation_entry)

lemma modify_translation_frame:
  assumes "modify_translation iter engword answer translations vs inputs = (err, vs', rest)"
  shows "level vs' = level vs \<and> is_qualified vs' = is_qualified vs"
  using assms unfolding modify_translation_def Let_def
  by (auto simp: change_translation_frame reset_modifications_frame
      split: sum.splits prod.splits if_splits option.splits)

lemma train_round_frame:
  "train_round lower iter vs vocdict testwords inputs asked = (err, vs', vocdict', rest, asked')
     \<Longrightarrow> level vs' = level vs \<and> is_qualified vs' = is_qualified vs"
proof (induction testwords arbitrary: vs vocdict inputs asked)
  case Nil
  then show ?case by simp
next
  case (Cons engword testwords)
  show ?case
  proof (cases "map_of vocdict engword")
    case None
    with Cons.prems show ?thesis by simp
  next
    case (Some defaults)
    show ?thesis
    proof (cases inputs)
      case Nil
      with Some Cons.prems show ?thesis by simp
    next
      case (Cons line more)
      let ?T = "get_modified_translations vs engword defaults"
      show ?thesis
      proof (cases "lower line \<in> ?T")
        case True
        with Some Cons Cons.prems
        have "train_round lower iter vs (dict_delitem vocdict engword) testwords more
                (asked @ [engword]) = (err, vs', vocdict', rest, asked')"
          by simp
        from Cons.IH [OF this] show ?thesis .
      next
        case False
        obtain e vs1 r1 where m:
          "modify_translation iter engword (lower line) ?T vs more = (e, vs1, r1)"
          by (cases "modify_translation iter engword (lower line) ?T vs more") auto
        note f = modify_translation_frame [OF m]
        show ?thesis
        proof (cases e)
          case None
          with False Some Cons Cons.prems m
          have "train_round lower iter vs1 vocdict testwords r1 (asked @ [engword])
                  = (err, vs', vocdict', rest, asked')"
            by simp
          from Cons.IH [OF this] f show ?thesis by simp
        next
          case (Some x)
          with False \<open>map_of vocdict engword = Some defaults\<close> Cons Cons.prems m f
          show ?thesis by auto
        qed
      qed
    qed
  qed
qed

lemma train_loop_frame:
  "level (final_state (train_loop lower shuffle iter vs vocdict inputs n asked)) = level vs
   \<and> (ended (train_loop lower shuffle iter vs vocdict inputs n asked) = Some AllCorrect
        \<longrightarrow> is_qualified (final_state (train_loop lower shuffle iter vs vocdict inputs n asked)))
   \<and> (ended (train_loop lower shuffle iter vs vocdict inputs n asked) \<noteq> Some AllCorrect
        \<longrightarrow> is_qualified (final_state (train_loop lower shuffle iter vs vocdict inputs n asked))
              = is_qualified vs)"
proof (induction lower shuffle iter vs vocdict inputs n asked rule: train_loop.induct)
  case (1 lower shuffle iter vstate vocdict inputs n asked)
  obtain err vs' vd' rest asked' where r:
    "train_round lower iter vstate vocdict (shuffle n (keys vocdict)) inputs asked
       = (err, vs', vd', rest, asked')"
    by (metis prod_cases5)
  note f = train_round_frame [OF r]
  show ?case
  proof (cases err)
    case (Some e)
    with r f show ?thesis
      by (subst (1 2 3 4) train_loop.simps) (simp add: Let_def)
  next
    case None
    show ?thesis
    proof (cases "vd' = []")
      case True
      with None r f show ?thesis
        by (subst (1 2 3 4) train_loop.simps) (simp add: Let_def)
    next
      case False
      show ?thesis
      proof (cases "menu_choose [(''c'', None), (''x'', None)] None rest")
        case (Inl e)
        with None False r f show ?thesis
          by (subst (1 2 3 4) train_loop.simps) (simp add: Let_def)
      next
        case (Inr cr)
        obtain choice rest' where cr: "cr = (choice, rest')"
          by (cases cr)
        show ?thesis
        proof (cases "fst choice = ''x''")
          case True
          with None False r f Inr cr show ?thesis
            by (subst (1 2 3 4) train_loop.simps) (simp add: Let_def)
        next
          case nx: False
          have step: "train_loop lower shuffle iter vstate vocdict inputs n asked
                  = train_loop lower shuffle iter vs' vd' rest' (Suc n) asked'"
            using None False r Inr cr nx
            by (subst train_loop.simps) (simp add: Let_def)
          have IH: "level (final_state (train_loop lower shuffle iter vs' vd' rest' (Suc n) asked'))
                      = level vs'
            \<and> (ended (train_loop lower shuffle iter vs' vd' rest' (Suc n) asked') = Some AllCorrect
                 \<longrightarrow> is_qualified (final_state (train_loop lower shuffle iter vs' vd' rest' (Suc n) asked')))
            \<and> (ended (train_loop lower shuffle iter vs' vd' rest' (Suc n) asked') \<noteq> Some AllCorrect
                 \<longrightarrow> is_qualified (final_state (train_loop lower shuffle iter vs' vd' rest' (Suc n) asked'))
                       = is_qualified vs')"
            using "1.IH" [OF refl r [symmetric] refl refl refl None False Inr cr [symmetric] nx] .
          with f show ?thesis
            unfolding step by simp
        qed
      qed
    qed
  qed
qed

text \<open>
  C4 (amended). A drill session never modifies the level. When a round ends with no
  word left (AllCorrect) the user is qualified afterwards: the qualification becomes
  true if and only if it was false beforehand, whatever the level, and is left
  unchanged when it was already true; for a level below MAXLEVEL this is the claim as
  stated. When the session ends otherwise (the user leaves, or the input ends) the
  qualification is unchanged.
\<close>

theorem train_qualification:
  "level (final_state (train lower shuffle iter vs voctable inputs)) = level vs
   \<and> (ended (train lower shuffle iter vs voctable inputs) = Some AllCorrect \<longrightarrow>
        is_qualified (final_state (train lower shuffle iter vs voctable inputs))
        \<and> ((\<not> is_qualified vs
             \<and> is_qualified (final_state (train lower shuffle iter vs voctable inputs)))
            = (\<not> is_qualified vs)))
   \<and> (ended (train lower shuffle iter vs voctable inputs) = Some AllCorrect \<longrightarrow>
        level vs < MAXLEVEL \<longrightarrow>
          ((\<not> is_qualified vs
             \<and> is_qualified (final_state (train lower shuffle iter vs voctable inputs)))
            = (\<not> is_qualified vs \<and> level vs < MAXLEVEL)))
   \<and> (ended (train lower shuffle iter vs voctable inputs) \<noteq> Some AllCorrect \<longrightarrow>
        is_qualified (final_state (train lower shuffle iter vs voctable inputs)) = is_qualified vs)"
  unfolding train_def
  using train_loop_frame [of lower shuffle iter vs "setup_test vs voctable" inputs 0 "[]"]
  by blast

theorem train_qualification_witness:
  "ended (train ascii_lower keep_order (iter_along [''katt'']) VocState_init
     [(''dog'', [''hund'']), (''cat'', [''katt''])]
     [''Hund'', ''kat'', ''0'', ''c'', ''katt'']) = Some AllCorrect
   \<and> level VocState_init < MAXLEVEL
   \<and> \<not> is_qualified VocState_init
   \<and> is_qualified (final_state (train ascii_lower keep_order (iter_along [''katt'']) VocState_init
     [(''dog'', [''hund'']), (''cat'', [''katt''])]
     [''Hund'', ''kat'', ''0'', ''c'', ''katt'']))
   \<and> level (final_state (train ascii_lower keep_order (iter_along [''katt'']) VocState_init
     [(''dog'', [''hund'']), (''cat'', [''katt''])]
     [''Hund'', ''kat'', ''0'', ''c'', ''katt''])) = 0
   \<and> ended (train ascii_lower keep_order (iter_along [''katt'']) VocState_init
     [(''dog'', [''hund'']), (''cat'', [''katt''])]
     [''Hund'', ''kat'', ''0'', ''x'']) = Some Exited
   \<and> \<not> is_qualified (final_state (train ascii_lower keep_order (iter_along [''katt'']) VocState_init
     [(''dog'', [''hund'']), (''cat'', [''katt''])]
     [''Hund'', ''kat'', ''0'', ''x'']))"
proof -
  have e: "ended (train ascii_lower keep_order (iter_along [''katt'']) VocState_init
     [(''dog'', [''hund'']), (''cat'', [''katt''])]
     [''Hund'', ''kat'', ''0'', ''c'', ''katt'']) = Some AllCorrect"
    by code_simp
  have x: "ended (train ascii_lower keep_order (iter_along [''katt'']) VocState_init
     [(''dog'', [''hund'']), (''cat'', [''katt''])]
     [''Hund'', ''kat'', ''0'', ''x'']) = Some Exited"
    by code_simp
  have l: "level VocState_init < MAXLEVEL" "\<not> is_qualified VocState_init"
    "level VocState_init = 0"
    by (simp_all add: VocState_init_def MAXLEVEL_def)
  from train_qualification [of ascii_lower keep_order "iter_along [''katt'']" VocState_init
      "[(''dog'', [''hund'']), (''cat'', [''katt''])]"
      "[''Hund'', ''kat'', ''0'', ''c'', ''katt'']"] e l
  have 1: "is_qualified (final_state (train ascii_lower keep_order (iter_along [''katt'']) VocState_init
     [(''dog'', [''hund'']), (''cat'', [''katt''])]
     [''Hund'', ''kat'', ''0'', ''c'', ''katt'']))
   \<and> level (final_state (train ascii_lower keep_order (iter_along [''katt'']) VocState_init
     [(''dog'', [''hund'']), (''cat'', [''katt''])]
     [''Hund'', ''kat'', ''0'', ''c'', ''katt''])) = 0"
    by simp
  from train_qualification [of ascii_lower keep_order "iter_along [''katt'']" VocState_init
      "[(''dog'', [''hund'']), (''cat'', [''katt''])]"
      "[''Hund'', ''kat'', ''0'', ''x'']"] x l
  have 2: "\<not> is_qualified (final_state (train ascii_lower keep_order (iter_along [''katt'']) VocState_init
     [(''dog'', [''hund'']), (''cat'', [''katt''])]
     [''Hund'', ''kat'', ''0'', ''x'']))"
    by simp
  from e l 1 x 2 show ?thesis
    by blast
qed

text \<open>
  The claim as stated fails at the maximal level: a user at level MAXLEVEL who is not
  qualified and answers the block's word is qualified afterwards.
\<close>

theorem train_qualification_counterexample:
  "MAXLEVEL \<le> level (VocState_init\<lparr>level := 10\<rparr>)
   \<and> \<not> is_qualified (VocState_init\<lparr>level := 10\<rparr>)
   \<and> ended (train ascii_lower keep_order (iter_along [])
        (VocState_init\<lparr>level := 10\<rparr>)
        (replicate 100 (''word'', [''ord'']) @ [(''dog'', [''hund''])]) [''hund''])
       = Some AllCorrect
   \<and> is_qualified (final_state (train ascii_lower keep_order (iter_along [])
        (VocState_init\<lparr>level := 10\<rparr>)
        (replicate 100 (''word'', [''ord'']) @ [(''dog'', [''hund''])]) [''hund'']))"
proof -
  let ?vs = "VocState_init\<lparr>level := 10\<rparr>"
  let ?t = "replicate 100 (''word'', [''ord'']) @ [(''dog'', [''hund''])]"
  have b: "setup_test ?vs ?t = [(''dog'', [''hund''])]"
    by (simp add: setup_test_def NUMWORDS_def py_slice_def dict_def VocState_init_def)
  have lo: "ascii_lower ''hund'' = ''hund''"
    by code_simp
  have r: "train ascii_lower keep_order (iter_along []) ?vs ?t [''hund'']
      = \<lparr>final_state = ?vs\<lparr>is_qualified := True\<rparr>, ended = Some AllCorrect, raised = None,
         prompted = [''dog'']\<rparr>"
    unfolding train_def b
    by (subst train_loop.simps)
      (simp add: keep_order_def keys_def get_modified_translations_def lo dict_delitem_def
        VocState_init_def)
  show ?thesis
    unfolding r by (simp add: MAXLEVEL_def VocState_init_def)
qed

section \<open>Answer comparison\<close>

text \<open>
  What the comparison does, for every lower-casing function: on a block of one word the
  exam is passed, and the drill ends with all words known after one answer, exactly
  when the lower-cased answer is an element of the effective translations as stored.
\<close>

lemma setup_test_single:
  "level vs = 0 \<Longrightarrow> setup_test vs [(w, d)] = [(w, d)]"
  by (simp add: setup_test_def NUMWORDS_def py_slice_def dict_def)

lemma mset_single: "mset xs = mset [w] \<Longrightarrow> xs = [w]"
  by (metis mset_single_iff_right mset.simps(1) mset.simps(2) add_mset_eq_single mset_zero_iff
      list.exhaust)

lemma take_exam_single:
  assumes "level vs = 0" "mset (shuffle [w]) = mset [w]"
  shows "(ended (take_exam lower shuffle vs [(w, d)] (a # rest)) = Some Passed)
           = (lower a \<in> get_modified_translations vs w d)"
    and "(ended (take_exam lower shuffle vs [(w, d)] (a # rest)) = Some Failed)
           = (lower a \<notin> get_modified_translations vs w d)"
proof -
  have sh: "shuffle [w] = [w]"
    using assms(2) by (rule mset_single)
  show "(ended (take_exam lower shuffle vs [(w, d)] (a # rest)) = Some Passed)
           = (lower a \<in> get_modified_translations vs w d)"
    and "(ended (take_exam lower shuffle vs [(w, d)] (a # rest)) = Some Failed)
           = (lower a \<notin> get_modified_translations vs w d)"
    by (auto simp: take_exam_def setup_test_single [OF assms(1)] keys_def sh Let_def
        dict_delitem_def split: list.splits)
qed

lemma menu_choose_no_input:
  "menu_choose ((''0'', v) # opts) (Some ''0'') [] = Inl EOFError"
  by (simp add: menu_choose_def Let_def)

lemma train_single:
  assumes "level vs = 0" "mset (shuffle 0 [w]) = mset [w]"
  shows "(ended (train lower shuffle iter vs [(w, d)] [a]) = Some AllCorrect)
           = (lower a \<in> get_modified_translations vs w d)"
proof -
  have sh: "shuffle 0 [w] = [w]"
    using assms(2) by (rule mset_single)
  show ?thesis
    unfolding train_def setup_test_single [OF assms(1)]
    by (subst train_loop.simps)
      (simp add: keys_def sh Let_def dict_delitem_def modify_translation_def
        menu_choose_no_input)
qed

text \<open>
  C5. The claim: in drill and exam an answer counts as correct if and only if it equals
  an element of the effective translations T up to letter case. The code lower-cases
  the answer and compares it with the translations as stored, which are not
  lower-cased. With the vocabulary entry dog -> Hund and a new user, the answer
  "Hund" is an element of T letter for letter and the drill rejects it: the session
  is left without qualification, and asked again the word is rejected again. The exam
  rejects it too, taken by the user who has qualified by adding "jycke" as a
  translation and answering that.
\<close>

theorem answer_comparison_rejects_stored_translation:
  "''Hund'' \<in> get_modified_translations VocState_init ''dog'' [''Hund'']
   \<and> ended (train ascii_lower keep_order (iter_along [''Hund'']) VocState_init
        [(''dog'', [''Hund''])] [''Hund'', ''0'', ''x'']) = Some Exited
   \<and> prompted (train ascii_lower keep_order (iter_along [''Hund'']) VocState_init
        [(''dog'', [''Hund''])] [''Hund'', ''0'', ''c'', ''Hund'', ''0'', ''x''])
       = [''dog'', ''dog'']
   \<and> is_qualified (final_state (train ascii_lower keep_order (iter_along [''Hund''])
        VocState_init [(''dog'', [''Hund''])] [''jycke'', ''a'', ''c'', ''jycke'']))
   \<and> ''Hund'' \<in> get_modified_translations
        (final_state (train ascii_lower keep_order (iter_along [''Hund''])
           VocState_init [(''dog'', [''Hund''])] [''jycke'', ''a'', ''c'', ''jycke'']))
        ''dog'' [''Hund'']
   \<and> ended (take_exam ascii_lower id
        (final_state (train ascii_lower keep_order (iter_along [''Hund''])
           VocState_init [(''dog'', [''Hund''])] [''jycke'', ''a'', ''c'', ''jycke'']))
        [(''dog'', [''Hund''])] [''Hund'', '''']) = Some Failed"
proof -
  have 1: "''Hund'' \<in> get_modified_translations VocState_init ''dog'' [''Hund'']"
    by (simp add: get_modified_translations_def VocState_init_def)
  have 2: "ended (train ascii_lower keep_order (iter_along [''Hund'']) VocState_init
        [(''dog'', [''Hund''])] [''Hund'', ''0'', ''x'']) = Some Exited"
    by code_simp
  have 3: "prompted (train ascii_lower keep_order (iter_along [''Hund'']) VocState_init
        [(''dog'', [''Hund''])] [''Hund'', ''0'', ''c'', ''Hund'', ''0'', ''x''])
       = [''dog'', ''dog'']"
    by code_simp
  have 4: "is_qualified (final_state (train ascii_lower keep_order (iter_along [''Hund''])
        VocState_init [(''dog'', [''Hund''])] [''jycke'', ''a'', ''c'', ''jycke'']))"
    by code_simp
  have 5: "''Hund'' \<in> get_modified_translations
        (final_state (train ascii_lower keep_order (iter_along [''Hund''])
           VocState_init [(''dog'', [''Hund''])] [''jycke'', ''a'', ''c'', ''jycke'']))
        ''dog'' [''Hund'']"
    by code_simp
  have 6: "ended (take_exam ascii_lower id
        (final_state (train ascii_lower keep_order (iter_along [''Hund''])
           VocState_init [(''dog'', [''Hund''])] [''jycke'', ''a'', ''c'', ''jycke'']))
        [(''dog'', [''Hund''])] [''Hund'', '''']) = Some Failed"
    by code_simp
  from 1 2 3 4 5 6 show ?thesis
    by blast
qed

section \<open>Parameter objects of change_translation\<close>

lemma refs_of_entry:
  "(w, (a, r)) \<in> set d \<Longrightarrow> a \<in> set (refs_of d) \<and> r \<in> set (refs_of d)"
  unfolding refs_of_def by force

lemma refs_of_distinct_pair:
  "distinct (refs_of d) \<Longrightarrow> (w, (a, r)) \<in> set d \<Longrightarrow> a \<noteq> r"
  unfolding refs_of_def by (induction d) auto

lemma refs_of_distinct_entries:
  "distinct (refs_of d) \<Longrightarrow> (w, (a, r)) \<in> set d \<Longrightarrow> (w', (a', r')) \<in> set d \<Longrightarrow> w \<noteq> w'
     \<Longrightarrow> a \<noteq> a' \<and> a \<noteq> r' \<and> r \<noteq> a' \<and> r \<noteq> r'"
proof (induction d)
  case Nil
  then show ?case by simp
next
  case (Cons p d)
  have tl: "distinct (refs_of d)"
    using Cons.prems(1) by (simp add: refs_of_def)
  have sep: "x \<in> set (refs_of d) \<Longrightarrow> x \<noteq> fst (snd p) \<and> x \<noteq> snd (snd p)" for x
    using Cons.prems(1) by (auto simp: refs_of_def)
  consider "(w, (a, r)) = p" "(w', (a', r')) \<in> set d"
    | "(w', (a', r')) = p" "(w, (a, r)) \<in> set d"
    | "(w, (a, r)) \<in> set d" "(w', (a', r')) \<in> set d"
    using Cons.prems(2,3,4) by auto
  then show ?case
  proof cases
    case 1
    from refs_of_entry [OF 1(2)] sep 1(1) show ?thesis
      by (metis fst_conv snd_conv)
  next
    case 2
    from refs_of_entry [OF 2(2)] sep 2(1) show ?thesis
      by (metis fst_conv snd_conv)
  next
    case 3
    from Cons.IH [OF tl 3 Cons.prems(4)] show ?thesis .
  qed
qed

lemma map_of_keys_None: "w \<notin> set (keys d) \<Longrightarrow> map_of d w = None"
  unfolding keys_def by (simp add: map_of_eq_None_iff)

lemma map_of_Some_keys: "map_of d w = Some p \<Longrightarrow> w \<in> set (keys d)"
  unfolding keys_def by (metis map_of_eq_None_iff option.distinct(1) set_map)

lemma map_of_None_keys: "map_of d w = None \<Longrightarrow> w \<notin> set (keys d)"
  unfolding keys_def by (simp add: map_of_eq_None_iff)

lemma change_translation_obj_new:
  assumes "map_of (extra_refs s) w = None" "add < fresh s" "remove < fresh s"
  shows "change_translation_obj s w add remove =
           \<lparr>heap = (heap s)
              (fresh s := heap s add - heap s remove,
               Suc (fresh s) := heap s remove - heap s add),
            fresh = Suc (Suc (fresh s)),
            extra_refs = extra_refs s @ [(w, (fresh s, Suc (fresh s)))]\<rparr>"
  using assms
  by (simp add: change_translation_obj_def new_set_def set_ior_def set_isub_def Let_def
      dict_setitem_append map_of_None_keys)

lemma change_translation_obj_old:
  assumes "map_of (extra_refs s) w = Some (a, r)" "a \<noteq> r"
    "add \<noteq> a" "add \<noteq> r" "remove \<noteq> a" "remove \<noteq> r"
    "a < fresh s" "r < fresh s" "add < fresh s" "remove < fresh s"
  shows "change_translation_obj s w add remove =
           \<lparr>heap = (heap s)
              (fresh s := {}, Suc (fresh s) := {},
               a := (heap s a \<union> heap s add) - heap s remove,
               r := (heap s r \<union> heap s remove) - heap s add),
            fresh = Suc (Suc (fresh s)),
            extra_refs = extra_refs s\<rparr>"
  using assms
  by (simp add: change_translation_obj_def new_set_def set_ior_def set_isub_def Let_def)

lemma refs_of_append: "refs_of (d @ [(w, (a, r))]) = refs_of d @ [a, r]"
  by (simp add: refs_of_def)

lemma wf_objects_refs:
  assumes "wf_objects s" "x \<in> set (refs_of (extra_refs s))"
  shows "2 \<le> x" "x < fresh s"
  using assms by (auto simp: wf_objects_def list_all_iff)

lemma change_translation_obj_step:
  assumes wf: "wf_objects s"
    and args: "add < fresh s" "remove < fresh s"
      "add \<notin> set (refs_of (extra_refs s))" "remove \<notin> set (refs_of (extra_refs s))"
  shows "wf_objects (change_translation_obj s w add remove)"
    and "\<And>x. x < fresh s \<Longrightarrow> x \<notin> set (refs_of (extra_refs s))
            \<Longrightarrow> heap (change_translation_obj s w add remove) x = heap s x"
    and "abs_store (change_translation_obj s w add remove) =
           (abs_store s)(w \<mapsto>
             (((case abs_store s w of None \<Rightarrow> {} | Some p \<Rightarrow> fst p) \<union> heap s add)
                - heap s remove,
              ((case abs_store s w of None \<Rightarrow> {} | Some p \<Rightarrow> snd p) \<union> heap s remove)
                - heap s add))"
    and "fresh s \<le> fresh (change_translation_obj s w add remove)"
proof -
  let ?d = "extra_refs s"
  let ?f = "fresh s"
  let ?s' = "change_translation_obj s w add remove"
  have all: "wf_objects ?s'
      \<and> (\<forall>x. x < ?f \<longrightarrow> x \<notin> set (refs_of ?d) \<longrightarrow> heap ?s' x = heap s x)
      \<and> abs_store ?s' =
           (abs_store s)(w \<mapsto>
             (((case abs_store s w of None \<Rightarrow> {} | Some p \<Rightarrow> fst p) \<union> heap s add)
                - heap s remove,
              ((case abs_store s w of None \<Rightarrow> {} | Some p \<Rightarrow> snd p) \<union> heap s remove)
                - heap s add))
      \<and> ?f \<le> fresh ?s'"
  proof (cases "map_of ?d w")
    case None
    note eq = change_translation_obj_new [OF None args(1,2)]
    have lt: "x < ?f" if "x \<in> set (refs_of ?d)" for x
      using wf_objects_refs(2) [OF wf that] .
    have nf: "?f \<notin> set (refs_of ?d)" "Suc ?f \<notin> set (refs_of ?d)"
      using lt [of ?f] lt [of "Suc ?f"] by auto
    have lt2: "\<forall>x \<in> set (refs_of ?d). x < Suc (Suc ?f)"
      using lt by (auto intro: less_SucI)
    have nk: "w \<notin> fst ` set ?d"
      using None by (simp add: map_of_eq_None_iff)
    have 1: "wf_objects ?s'"
      using wf nf lt2 nk unfolding eq
      by (simp add: wf_objects_def refs_of_append keys_def list_all_iff)
    have 2: "\<forall>x. x < ?f \<longrightarrow> x \<notin> set (refs_of ?d) \<longrightarrow> heap ?s' x = heap s x"
      unfolding eq by simp
    have 3: "abs_store ?s' w' =
           ((abs_store s)(w \<mapsto>
             (((case abs_store s w of None \<Rightarrow> {} | Some p \<Rightarrow> fst p) \<union> heap s add)
                - heap s remove,
              ((case abs_store s w of None \<Rightarrow> {} | Some p \<Rightarrow> snd p) \<union> heap s remove)
                - heap s add))) w'" for w'
    proof (cases "w' = w")
      case True
      with None show ?thesis
        unfolding eq by (simp add: abs_store_def map_add_def)
    next
      case False
      show ?thesis
      proof (cases "map_of ?d w'")
        case None
        with False show ?thesis
          unfolding eq by (simp add: abs_store_def map_add_def)
      next
        case (Some p)
        then have "(w', (fst p, snd p)) \<in> set ?d"
          by (simp add: map_of_SomeD)
        from refs_of_entry [OF this] have "fst p < ?f" "snd p < ?f"
          using lt by auto
        with False Some show ?thesis
          unfolding eq by (simp add: abs_store_def map_add_def)
      qed
    qed
    have 4: "?f \<le> fresh ?s'"
      unfolding eq by simp
    from 1 2 3 4 show ?thesis
      by (auto simp: fun_eq_iff)
  next
    case (Some p)
    obtain a r where p: "p = (a, r)"
      by (cases p)
    have mem: "(w, (a, r)) \<in> set ?d"
      using Some p by (simp add: map_of_SomeD)
    have dist: "distinct (refs_of ?d)"
      using wf by (simp add: wf_objects_def)
    have ar: "a \<noteq> r"
      using refs_of_distinct_pair [OF dist mem] .
    have own: "a \<in> set (refs_of ?d)" "r \<in> set (refs_of ?d)"
      using refs_of_entry [OF mem] by auto
    have lt: "x < ?f" if "x \<in> set (refs_of ?d)" for x
      using wf_objects_refs(2) [OF wf that] .
    have ne: "add \<noteq> a" "add \<noteq> r" "remove \<noteq> a" "remove \<noteq> r"
      using own args(3,4) by auto
    note eq = change_translation_obj_old
      [OF Some [unfolded p] ar ne lt [OF own(1)] lt [OF own(2)] args(1,2)]
    have 1: "wf_objects ?s'"
      using wf unfolding eq by (auto simp: wf_objects_def list_all_iff)
    have 2: "\<forall>x. x < ?f \<longrightarrow> x \<notin> set (refs_of ?d) \<longrightarrow> heap ?s' x = heap s x"
      unfolding eq using own by auto
    have 3: "abs_store ?s' w' =
           ((abs_store s)(w \<mapsto>
             (((case abs_store s w of None \<Rightarrow> {} | Some p \<Rightarrow> fst p) \<union> heap s add)
                - heap s remove,
              ((case abs_store s w of None \<Rightarrow> {} | Some p \<Rightarrow> snd p) \<union> heap s remove)
                - heap s add))) w'" for w'
    proof (cases "w' = w")
      case True
      with Some p ar show ?thesis
        unfolding eq by (simp add: abs_store_def)
    next
      case False
      show ?thesis
      proof (cases "map_of ?d w'")
        case None
        with False show ?thesis
          unfolding eq by (simp add: abs_store_def)
      next
        case (Some q)
        then have mem': "(w', (fst q, snd q)) \<in> set ?d"
          by (simp add: map_of_SomeD)
        from refs_of_entry [OF mem'] have "fst q < ?f" "snd q < ?f"
          using lt by auto
        moreover from refs_of_distinct_entries [OF dist mem mem'] False
        have "a \<noteq> fst q" "a \<noteq> snd q" "r \<noteq> fst q" "r \<noteq> snd q"
          by auto
        ultimately show ?thesis
          using False Some unfolding eq by (auto simp: abs_store_def)
      qed
    qed
    have 4: "?f \<le> fresh ?s'"
      unfolding eq by simp
    from 1 2 3 4 show ?thesis
      by (auto simp: fun_eq_iff)
  qed
  from all show "wf_objects ?s'"
    by blast
  from all show "\<And>x. x < ?f \<Longrightarrow> x \<notin> set (refs_of ?d) \<Longrightarrow> heap ?s' x = heap s x"
    by blast
  from all show "abs_store ?s' =
           (abs_store s)(w \<mapsto>
             (((case abs_store s w of None \<Rightarrow> {} | Some p \<Rightarrow> fst p) \<union> heap s add)
                - heap s remove,
              ((case abs_store s w of None \<Rightarrow> {} | Some p \<Rightarrow> snd p) \<union> heap s remove)
                - heap s add))"
    by blast
  from all show "?f \<le> fresh ?s'"
    by blast
qed

lemma refs_of_filter_subset: "set (refs_of (filter P d)) \<subseteq> set (refs_of d)"
  unfolding refs_of_def by auto

lemma refs_of_filter_distinct: "distinct (refs_of d) \<Longrightarrow> distinct (refs_of (filter P d))"
proof (induction d)
  case Nil
  then show ?case by (simp add: refs_of_def)
next
  case (Cons p d)
  have "distinct (refs_of d)"
    using Cons.prems by (simp add: refs_of_def)
  from Cons.IH [OF this] Cons.prems refs_of_filter_subset [of P d] show ?case
    by (auto simp: refs_of_def)
qed

lemma reset_modifications_obj_step:
  assumes "wf_objects s"
  shows "wf_objects (reset_modifications_obj s w)"
    and "heap (reset_modifications_obj s w) = heap s"
    and "abs_store (reset_modifications_obj s w) = (abs_store s)(w := None)"
proof -
  show "heap (reset_modifications_obj s w) = heap s"
    by (simp add: reset_modifications_obj_def)
  show "wf_objects (reset_modifications_obj s w)"
    using assms refs_of_filter_subset [of "\<lambda>p. fst p \<noteq> w" "extra_refs s"]
      refs_of_filter_distinct [of "extra_refs s" "\<lambda>p. fst p \<noteq> w"]
    by (auto simp: reset_modifications_obj_def wf_objects_def dict_delitem_def keys_def
        list_all_iff distinct_map_filter)
  show "abs_store (reset_modifications_obj s w) = (abs_store s)(w := None)"
    by (auto simp: reset_modifications_obj_def abs_store_def map_of_dict_delitem fun_eq_iff
        split: option.splits dest: map_of_keys_None map_of_Some_keys)
qed

lemma pass_arg_step:
  assumes "wf_objects s" "pass_arg dflt arg s = (x, s')" "dflt < 2"
  shows "wf_objects s'"
    and "x < fresh s'" and "x \<notin> set (refs_of (extra_refs s'))"
    and "heap s' x = (case arg of None \<Rightarrow> heap s dflt | Some S \<Rightarrow> S)"
    and "\<And>y. y < fresh s \<Longrightarrow> heap s' y = heap s y"
    and "abs_store s' = abs_store s"
    and "fresh s \<le> fresh s'"
proof -
  have lt: "y < fresh s" and ge: "2 \<le> y" if "y \<in> set (refs_of (extra_refs s))" for y
    using wf_objects_refs [OF assms(1) that] by auto
  have f2: "2 \<le> fresh s"
    using assms(1) by (simp add: wf_objects_def)
  show "wf_objects s'"
    using assms(1,2) lt
    by (auto simp: pass_arg_def new_set_def wf_objects_def list_all_iff less_SucI
        split: option.splits)
  show "x < fresh s'"
    using assms(2,3) f2 by (auto simp: pass_arg_def new_set_def split: option.splits)
  show "x \<notin> set (refs_of (extra_refs s'))"
    using assms(2,3) lt ge by (fastforce simp: pass_arg_def new_set_def split: option.splits)
  show "heap s' x = (case arg of None \<Rightarrow> heap s dflt | Some S \<Rightarrow> S)"
    using assms(2) by (auto simp: pass_arg_def new_set_def split: option.splits)
  show "\<And>y. y < fresh s \<Longrightarrow> heap s' y = heap s y"
    using assms(2) by (auto simp: pass_arg_def new_set_def split: option.splits)
  show "fresh s \<le> fresh s'"
    using assms(2) by (auto simp: pass_arg_def new_set_def split: option.splits)
  show "abs_store s' = abs_store s"
  proof
    fix w
    show "abs_store s' w = abs_store s w"
    proof (cases "map_of (extra_refs s) w")
      case None
      with assms(2) show ?thesis
        by (auto simp: pass_arg_def new_set_def abs_store_def split: option.splits)
    next
      case (Some p)
      then have "(w, (fst p, snd p)) \<in> set (extra_refs s)"
        by (simp add: map_of_SomeD)
      from refs_of_entry [OF this] lt [of "fst p"] lt [of "snd p"]
      have "fst p \<noteq> fresh s" "snd p \<noteq> fresh s"
        by auto
      with Some assms(2) show ?thesis
        by (auto simp: pass_arg_def new_set_def abs_store_def split: option.splits)
    qed
  qed
qed

text \<open>
  The relation between the objects and the value-level state that every call keeps:
  the objects are well formed, both default objects are empty, and the store they
  represent is the value-level store.
\<close>

lemma do_call_step:
  assumes "wf_objects s" "heap s default_add = {}" "heap s default_remove = {}"
    and "abs_store s = extra_trans vs"
  shows "wf_objects (do_call s c)"
    and "heap (do_call s c) default_add = {}" and "heap (do_call s c) default_remove = {}"
    and "abs_store (do_call s c) = extra_trans (apply_correction vs (correction_of c))"
proof -
  have all: "wf_objects (do_call s c)
      \<and> heap (do_call s c) default_add = {} \<and> heap (do_call s c) default_remove = {}
      \<and> abs_store (do_call s c) = extra_trans (apply_correction vs (correction_of c))"
  proof (cases c)
    case (Reset w)
    have "extra_trans (reset_modifications vs w) = (extra_trans vs)(w := None)"
      by (cases "extra_trans vs w") (auto simp: reset_modifications_def fun_eq_iff)
    with reset_modifications_obj_step [OF assms(1), of w] assms(2,3,4) Reset show ?thesis
      by simp
  next
    case (Change w add remove)
    obtain a s1 where p1: "pass_arg default_add add s = (a, s1)"
      by (cases "pass_arg default_add add s")
    obtain r s2 where p2: "pass_arg default_remove remove s1 = (r, s2)"
      by (cases "pass_arg default_remove remove s1")
    have d2: "default_add < 2" "default_remove < 2"
      by (simp_all add: default_add_def default_remove_def)
    note A = pass_arg_step [OF assms(1) p1 d2(1)]
    note R = pass_arg_step [OF A(1) p2 d2(2)]
    have f2: "2 \<le> fresh s"
      using assms(1) by (simp add: wf_objects_def)
    have a_lt: "a < fresh s2"
      using A(2) R(7) by simp
    have a_own: "a \<notin> set (refs_of (extra_refs s2))"
    proof
      assume "a \<in> set (refs_of (extra_refs s2))"
      then have "a \<in> set (refs_of (extra_refs s1))"
        using p2 by (auto simp: pass_arg_def new_set_def split: option.splits)
      with A(3) show False by simp
    qed
    have ha: "heap s2 a = (case add of None \<Rightarrow> {} | Some S \<Rightarrow> S)"
      using R(5) [OF A(2)] A(4) assms(2) by (simp split: option.splits)
    have hr: "heap s2 r = (case remove of None \<Rightarrow> {} | Some S \<Rightarrow> S)"
    proof -
      have "default_remove < fresh s"
        using f2 d2(2) by simp
      from A(5) [OF this] assms(3) have "heap s1 default_remove = {}"
        by simp
      with R(4) show ?thesis
        by (simp split: option.splits)
    qed
    have dlt: "default_add < fresh s2" "default_remove < fresh s2"
      using f2 d2 A(7) R(7) by simp_all
    have down: "default_add \<notin> set (refs_of (extra_refs s2))"
      "default_remove \<notin> set (refs_of (extra_refs s2))"
      using wf_objects_refs(1) [OF R(1)] d2 by fastforce+
    have h0: "heap s2 default_add = {}" "heap s2 default_remove = {}"
    proof -
      have "default_add < fresh s" "default_remove < fresh s"
        using f2 d2 by simp_all
      then have "heap s1 default_add = {}" "heap s1 default_remove = {}"
        using A(5) assms(2,3) by simp_all
      moreover have "default_add < fresh s1" "default_remove < fresh s1"
        using f2 d2 A(7) by simp_all
      ultimately show "heap s2 default_add = {}" "heap s2 default_remove = {}"
        using R(5) by simp_all
    qed
    have ab: "abs_store s2 = extra_trans vs"
      using A(6) R(6) assms(4) by simp
    note S = change_translation_obj_step [OF R(1) a_lt R(2) a_own R(3), where w = w]
    have call: "do_call s c = change_translation_obj s2 w a r"
      using Change p1 p2 by simp
    have "abs_store (change_translation_obj s2 w a r)
        = extra_trans (change_translation vs w
            (case add of None \<Rightarrow> {} | Some S \<Rightarrow> S)
            (case remove of None \<Rightarrow> {} | Some S \<Rightarrow> S))"
      unfolding S(3) ab ha hr
      by (simp add: change_translation_entry additions_def removals_def)
    with S(1) S(2) [OF dlt(1) down(1)] S(2) [OF dlt(2) down(2)] h0 Change call
    show ?thesis
      by simp
  qed
  from all show "wf_objects (do_call s c)"
    and "heap (do_call s c) default_add = {}" and "heap (do_call s c) default_remove = {}"
    and "abs_store (do_call s c) = extra_trans (apply_correction vs (correction_of c))"
    by blast+
qed

lemma run_calls_invariant:
  assumes "wf_objects s" "heap s default_add = {}" "heap s default_remove = {}"
    and "abs_store s = extra_trans vs"
  shows "wf_objects (run_calls s cs)
         \<and> heap (run_calls s cs) default_add = {} \<and> heap (run_calls s cs) default_remove = {}
         \<and> abs_store (run_calls s cs) = extra_trans (run_corrections vs (map correction_of cs))"
  using assms unfolding run_calls_def run_corrections_def
proof (induction cs arbitrary: s vs)
  case Nil
  then show ?case by simp
next
  case (Cons c cs)
  note st = do_call_step [OF Cons.prems, of c]
  from Cons.IH [OF st] show ?case
    by simp
qed

lemma objects_init_invariant:
  "wf_objects objects_init" "heap objects_init default_add = {}"
  "heap objects_init default_remove = {}" "abs_store objects_init = extra_trans VocState_init"
  by (simp_all add: objects_init_def wf_objects_def keys_def refs_of_def abs_store_def
      VocState_init_def fun_eq_iff)

lemma correction_of_with_fresh_empty: "correction_of (with_fresh_empty c) = correction_of c"
  by (cases c) (auto split: option.splits)

text \<open>
  C9. \<open>change_translation\<close> writes only to the two set objects of the word's entry.
  In every well-formed state of the objects, a call leaves unchanged the objects
  passed as \<open>add\<close> and \<open>remove\<close>, whenever these are allocated objects that are not
  sets of the store itself (the store's sets are private to the class: they are
  created inside \<open>change_translation\<close> and never handed out). After every sequence of
  calls, on any words, with arguments given or omitted, the objects are well formed,
  the two default objects are allocated, are not sets of the store, and are still
  empty; the store is the one that the value-level model computes with the empty set
  for every omitted argument; and it is the store reached when a new empty set is
  passed in place of every omitted argument.
\<close>

theorem change_translation_keeps_parameters:
  "(wf_objects s \<longrightarrow> add < fresh s \<longrightarrow> remove < fresh s \<longrightarrow>
      add \<notin> set (refs_of (extra_refs s)) \<longrightarrow> remove \<notin> set (refs_of (extra_refs s)) \<longrightarrow>
        heap (change_translation_obj s w add remove) add = heap s add
        \<and> heap (change_translation_obj s w add remove) remove = heap s remove)
   \<and> wf_objects (run_calls objects_init cs)
   \<and> default_add < fresh (run_calls objects_init cs)
   \<and> default_remove < fresh (run_calls objects_init cs)
   \<and> default_add \<notin> set (refs_of (extra_refs (run_calls objects_init cs)))
   \<and> default_remove \<notin> set (refs_of (extra_refs (run_calls objects_init cs)))
   \<and> heap (run_calls objects_init cs) default_add = {}
   \<and> heap (run_calls objects_init cs) default_remove = {}
   \<and> abs_store (run_calls objects_init cs)
       = extra_trans (run_corrections VocState_init (map correction_of cs))
   \<and> abs_store (run_calls objects_init cs)
       = abs_store (run_calls objects_init (map with_fresh_empty cs))"
proof -
  have kept: "wf_objects s \<longrightarrow> add < fresh s \<longrightarrow> remove < fresh s \<longrightarrow>
      add \<notin> set (refs_of (extra_refs s)) \<longrightarrow> remove \<notin> set (refs_of (extra_refs s)) \<longrightarrow>
        heap (change_translation_obj s w add remove) add = heap s add
        \<and> heap (change_translation_obj s w add remove) remove = heap s remove"
    using change_translation_obj_step(2) by blast
  note inv = run_calls_invariant [OF objects_init_invariant]
  have wf: "wf_objects (run_calls objects_init cs)"
    using inv [of cs] by blast
  then have f2: "2 \<le> fresh (run_calls objects_init cs)"
    by (simp add: wf_objects_def)
  have lt: "default_add < fresh (run_calls objects_init cs)"
    "default_remove < fresh (run_calls objects_init cs)"
    using f2 by (simp_all add: default_add_def default_remove_def)
  have own: "default_add \<notin> set (refs_of (extra_refs (run_calls objects_init cs)))"
    "default_remove \<notin> set (refs_of (extra_refs (run_calls objects_init cs)))"
    using wf_objects_refs(1) [OF wf] by (fastforce simp: default_add_def default_remove_def)+
  have same: "map correction_of (map with_fresh_empty cs) = map correction_of cs"
    by (simp add: correction_of_with_fresh_empty)
  have fresh_empty: "abs_store (run_calls objects_init cs)
       = abs_store (run_calls objects_init (map with_fresh_empty cs))"
    using inv [of cs] inv [of "map with_fresh_empty cs"] unfolding same by simp
  from kept wf lt own inv [of cs] fresh_empty show ?thesis
    by blast
qed

theorem change_translation_keeps_parameters_witness:
  "wf_objects (run_calls objects_init [Change ''dog'' (Some {''vov''}) None])
   \<and> default_add < fresh (run_calls objects_init [Change ''dog'' (Some {''vov''}) None])
   \<and> 2 < fresh (run_calls objects_init [Change ''dog'' (Some {''vov''}) None])
   \<and> refs_of (extra_refs (run_calls objects_init [Change ''dog'' (Some {''vov''}) None])) = [3, 4]
   \<and> heap (run_calls objects_init [Change ''dog'' (Some {''vov''}) None]) default_add = {}
   \<and> heap (run_calls objects_init [Change ''dog'' (Some {''vov''}) None]) 2 = {''vov''}
   \<and> heap (change_translation_obj
             (run_calls objects_init [Change ''dog'' (Some {''vov''}) None])
             ''dog'' default_add 2) default_add = {}
   \<and> heap (change_translation_obj
             (run_calls objects_init [Change ''dog'' (Some {''vov''}) None])
             ''dog'' default_add 2) 2 = {''vov''}
   \<and> abs_store (change_translation_obj
             (run_calls objects_init [Change ''dog'' (Some {''vov''}) None])
             ''dog'' default_add 2) ''dog'' = Some ({}, {''vov''})"
proof -
  let ?s = "run_calls objects_init [Change ''dog'' (Some {''vov''}) None]"
  have wf: "wf_objects ?s"
    by code_simp
  have f: "default_add < fresh ?s" "2 < fresh ?s"
    by code_simp+
  have own: "refs_of (extra_refs ?s) = [3, 4]"
    by code_simp
  have h: "heap ?s default_add = {}" "heap ?s 2 = {''vov''}"
    by code_simp+
  have n: "default_add \<notin> set (refs_of (extra_refs ?s))" "2 \<notin> set (refs_of (extra_refs ?s))"
    unfolding own by (simp_all add: default_add_def)
  from change_translation_keeps_parameters [of ?s default_add 2 "''dog''" "[]"] wf f n
  have k: "heap (change_translation_obj ?s ''dog'' default_add 2) default_add = heap ?s default_add"
    "heap (change_translation_obj ?s ''dog'' default_add 2) 2 = heap ?s 2"
    by blast+
  have a: "abs_store (change_translation_obj ?s ''dog'' default_add 2) ''dog''
      = Some ({}, {''vov''})"
    by code_simp
  from wf f own h k a show ?thesis
    by simp
qed

section \<open>The menus of the drill\<close>

text \<open>
  A menu returns one of its options, so in \<open>_modify_translation\<close> the branch that
  replaces a translation always has the translation to replace; and neither menu of
  the drill fails the assertion on its default.
\<close>

lemma choose_loop_value:
  "choose_loop input_dict dflt inputs = Inr (r, rest) \<Longrightarrow> r \<in> snd ` set input_dict"
proof (induction inputs)
  case Nil
  then show ?case by simp
next
  case (Cons line inputs)
  then show ?case
    by (auto simp: Let_def split: option.splits dest!: map_of_SomeD intro: rev_image_eqI)
qed

lemma menu_choose_value:
  assumes "menu_choose options dflt inputs = Inr (r, rest)"
  shows "r \<in> set options"
proof -
  let ?ps = "map (\<lambda>tup. (fst tup, (fst tup, snd tup))) options"
  from assms have "choose_loop (dict ?ps) dflt inputs = Inr (r, rest)"
    by (auto simp: menu_choose_def Let_def split: if_splits)
  from choose_loop_value [OF this] obtain k where "(k, r) \<in> set (dict ?ps)"
    by force
  then have "map_of (dict ?ps) k = Some r"
    using distinct_keys_dict [of ?ps] by (simp add: keys_def)
  then have "map_of (rev ?ps) k = Some r"
    by (simp add: map_of_dict)
  then have "(k, r) \<in> set ?ps"
    using map_of_SomeD by fastforce
  then show ?thesis
    by auto
qed

lemma modify_translation_numbered_value:
  assumes "menu_choose ([(''0'', None), (''a'', None), (''r'', None)]
             @ map (\<lambda>(n, word). (str n, Some word)) (enumerate 1 ws))
           (Some ''0'') inputs = Inr ((opt, replaceword), rest)"
    and "opt \<noteq> ''0''" "opt \<noteq> ''a''" "opt \<noteq> ''r''"
  shows "\<exists>word. replaceword = Some word \<and> word \<in> set ws"
proof -
  from menu_choose_value [OF assms(1)] assms(2,3,4)
  have "(opt, replaceword) \<in> set (map (\<lambda>(n, word). (str n, Some word)) (enumerate 1 ws))"
    by auto
  then obtain n word where "(n, word) \<in> set (enumerate 1 ws)" "replaceword = Some word"
    by auto
  then show ?thesis
    by (auto simp: in_set_enumerate_eq)
qed

lemma menus_never_assert:
  "menu_choose ([(''0'', None), (''a'', None), (''r'', None)] @ numbered) (Some ''0'') inputs
     \<noteq> Inl AssertionError"
  "menu_choose [(''c'', None), (''x'', None)] None inputs \<noteq> Inl AssertionError"
proof -
  have "choose_loop input_dict dflt inputs \<noteq> Inl AssertionError"
    for input_dict :: "(string, menu_option) pydict" and dflt inputs
    by (induction inputs) (auto simp: Let_def split: option.splits)
  then show
    "menu_choose ([(''0'', None), (''a'', None), (''r'', None)] @ numbered) (Some ''0'') inputs
       \<noteq> Inl AssertionError"
    "menu_choose [(''c'', None), (''x'', None)] None inputs \<noteq> Inl AssertionError"
    by (simp_all add: menu_choose_def Let_def)
qed

end
